theory Spec2Isabelle
  imports Main "HOL-Library.Sublist" "HOL-Library.Monad_Syntax"
begin

section \<open>BoundedFileQueue\<close>

text \<open>
  A filesystem path is the byte string that names it.  The queue object holds the
  pending paths (head of the list = front of \<open>std::queue\<close>), its capacity and the
  finished flag; the fields \<open>queue_\<close>, \<open>maxSize_\<close> and \<open>finished_\<close> of the class are
  written without the trailing underscore, which an Isabelle name cannot end in.  Every
  member function runs under \<open>mutex_\<close>, so each call is one atomic step on this record.
\<close>

type_synonym path = string

record BoundedFileQueue =
  queue :: "path list"
  maxSize :: nat
  finished :: bool

text \<open>The constructor: \<open>maxSize_(maxSize), finished_(false)\<close>, the queue empty.\<close>

definition BoundedFileQueue_init :: "nat \<Rightarrow> BoundedFileQueue" where
  "BoundedFileQueue_init n = \<lparr>queue = [], maxSize = n, finished = False\<rparr>"

text \<open>
  \<open>push\<close>: the condition-variable wait returns only once
  \<open>queue_.size() < maxSize_ || finished_\<close> holds; while it does not hold the caller is
  blocked, which is the result \<open>None\<close>.  When the call returns, the result is the queue
  it leaves behind: unchanged when \<open>finished_\<close> is set, the path appended otherwise.
\<close>

definition push :: "BoundedFileQueue \<Rightarrow> path \<Rightarrow> BoundedFileQueue option" where
  "push q p =
     (if \<not> (length (queue q) < maxSize q \<or> finished q) then None
      else if finished q then Some q
      else Some (q\<lparr>queue := queue q @ [p]\<rparr>))"

text \<open>
  \<open>pop\<close>: blocked (\<open>None\<close>) while \<open>!queue_.empty() || finished_\<close> is false.  When it
  returns, \<open>Some (None, q)\<close> is the return value \<open>false\<close> (nothing written to the out
  parameter) and \<open>Some (Some p, q')\<close> is \<open>true\<close> with the front element in \<open>path\<close>.
\<close>

definition pop :: "BoundedFileQueue \<Rightarrow> (path option \<times> BoundedFileQueue) option" where
  "pop q =
     (if \<not> (queue q \<noteq> [] \<or> finished q) then None
      else case queue q of
             [] \<Rightarrow> Some (None, q)
           | p # rest \<Rightarrow> Some (Some p, q\<lparr>queue := rest\<rparr>))"

definition setFinished :: "BoundedFileQueue \<Rightarrow> BoundedFileQueue" where
  "setFinished q = q\<lparr>finished := True\<rparr>"

definition isFinished :: "BoundedFileQueue \<Rightarrow> bool" where
  "isFinished q = finished q"

definition isEmpty :: "BoundedFileQueue \<Rightarrow> bool" where
  "isEmpty q = (queue q = [])"

text \<open>
  A history of the queue is the sequence of member calls in the order in which they
  take the mutex.  A call whose wait predicate is false does not happen at that point
  (its thread stays blocked and the queue is as it was).
\<close>

datatype queue_op = Push path | Pop | SetFinished

fun exec_op :: "BoundedFileQueue \<Rightarrow> queue_op \<Rightarrow> BoundedFileQueue" where
  "exec_op q (Push p) = (case push q p of None \<Rightarrow> q | Some q' \<Rightarrow> q')"
| "exec_op q Pop = (case pop q of None \<Rightarrow> q | Some (r, q') \<Rightarrow> q')"
| "exec_op q SetFinished = setFinished q"

definition exec_ops :: "BoundedFileQueue \<Rightarrow> queue_op list \<Rightarrow> BoundedFileQueue" where
  "exec_ops q ops = foldl exec_op q ops"


section \<open>Shared state of the scan\<close>

text \<open>
  \<open>StatusData\<close> as declared, with the initial values of its member initialisers.  The
  counters are \<open>size_t\<close>; they count files and lines of one run and are modelled as
  natural numbers.
\<close>

record StatusData =
  filesScanned :: nat
  currentFile :: string
  fileHits :: nat
  totalHits :: nat
  lastError :: string

definition StatusData_init :: StatusData where
  "StatusData_init =
     \<lparr>filesScanned = 0, currentFile = [], fileHits = 0, totalHits = 0, lastError = ''none''\<rparr>"

text \<open>
  The file-scope variables that the search reads and writes: \<open>g_status\<close>, the text
  written so far to \<open>g_resultsFile\<close>, and \<open>g_filesProcessed\<close>.  The field \<open>opened\<close> is
  the log of the paths for which an \<open>std::ifstream\<close> was constructed and reported
  \<open>is_open()\<close>, in the order of the calls.
\<close>

record globals =
  g_status :: StatusData
  g_resultsFile :: string
  g_filesProcessed :: nat
  opened :: "path list"


section \<open>sanitizeLine\<close>

text \<open>
  The stream is set to \<open>std::hex\<close> without base prefix; an escaped byte is written as
  the two characters backslash and \<open>x\<close>, followed by \<open>(int)c\<close> in lower-case hexadecimal
  under \<open>setw(2)\<close> and \<open>setfill('0')\<close>.  \<open>to_hex\<close> is the digit string the stream
  produces for a non-negative integer and \<open>setw_fill\<close> the right-adjusted padding to
  the field width.  The loop variable is an \<open>unsigned char\<close>, so \<open>of_char c\<close> ranges over
  \<open>0..255\<close>.
\<close>

definition hex_digit :: "nat \<Rightarrow> char" where
  "hex_digit d = ''0123456789abcdef'' ! d"

fun to_hex :: "nat \<Rightarrow> string" where
  "to_hex n = (if n < 16 then [hex_digit n] else to_hex (n div 16) @ [hex_digit (n mod 16)])"

declare to_hex.simps [simp del]

definition setw_fill :: "nat \<Rightarrow> char \<Rightarrow> string \<Rightarrow> string" where
  "setw_fill w f s = replicate (w - length s) f @ s"

definition sanitizeLine :: "string \<Rightarrow> string" where
  "sanitizeLine line =
     foldl (\<lambda>oss c.
        if (32 \<le> (of_char c :: nat) \<and> (of_char c :: nat) < 127) \<or> c = CHR 0x09
        then oss @ [c]
        else oss @ [CHR 0x5C, CHR ''x''] @ setw_fill 2 (CHR ''0'') (to_hex (of_char c)))
       [] line"

text \<open>
  The two cases of the loop body, named for the statements about it: the bytes that
  are kept, and the four characters that stand for any other byte.
\<close>

definition keep_byte :: "char \<Rightarrow> bool" where
  "keep_byte c = ((32 \<le> (of_char c :: nat) \<and> (of_char c :: nat) < 127) \<or> c = CHR 0x09)"

definition escape_byte :: "char \<Rightarrow> string" where
  "escape_byte c =
     [CHR 0x5C, CHR ''x'', hex_digit (of_char c div 16), hex_digit (of_char c mod 16)]"


section \<open>truncateAndHighlightMatch\<close>

text \<open>
  \<open>std::string::find\<close>: the index of the first occurrence of the query, \<open>None\<close> for
  \<open>npos\<close>.  An empty query is found at index \<open>0\<close> of every line.
\<close>

fun str_find :: "string \<Rightarrow> string \<Rightarrow> nat option" where
  "str_find [] q = (if q = [] then Some 0 else None)"
| "str_find (c # cs) q =
     (if prefix q (c # cs) then Some 0 else map_option Suc (str_find cs q))"

text \<open>
  \<open>substr(pos, n)\<close> and \<open>insert(idx, t)\<close> throw \<open>std::out_of_range\<close> when the index
  exceeds the size of the string; that is the result \<open>None\<close>.
\<close>

definition substr :: "string \<Rightarrow> nat \<Rightarrow> nat \<Rightarrow> string option" where
  "substr s pos n = (if pos > length s then None else Some (take n (drop pos s)))"

definition str_insert :: "string \<Rightarrow> nat \<Rightarrow> string \<Rightarrow> string option" where
  "str_insert s idx t = (if idx > length s then None else Some (take idx s @ t @ drop idx s))"

text \<open>
  The two inserted literals: the escape character (octal 033) followed by \<open>[31m\<close>,
  and the escape character followed by \<open>[0m\<close>.
\<close>

definition color_red :: string where
  "color_red = [CHR 0x1B, CHR ''['', CHR ''3'', CHR ''1'', CHR ''m'']"

definition color_reset :: string where
  "color_reset = [CHR 0x1B, CHR ''['', CHR ''0'', CHR ''m'']"

text \<open>
  The function body, statement by statement.  \<open>None\<close> is an exception leaving the
  function.  The differences \<open>pos - contextRadius\<close>, \<open>end - start\<close> and \<open>pos - start\<close> are
  only taken where the minuend is the larger operand.
\<close>

definition truncateAndHighlightMatch :: "string \<Rightarrow> string \<Rightarrow> nat \<Rightarrow> string option" where
  "truncateAndHighlightMatch line query maxContext =
     (case str_find line query of
        None \<Rightarrow>
          if length line > maxContext
          then map_option (\<lambda>s. s @ ''...(truncated)'') (substr line 0 maxContext)
          else Some line
      | Some pos \<Rightarrow>
          let contextRadius = maxContext div 2;
              start = (if pos > contextRadius then pos - contextRadius else 0);
              end0 = pos + length query + contextRadius;
              end1 = (if end0 > length line then length line else end0);
              truncatedLeft = (start > 0);
              truncatedRight = (end1 < length line);
              snippetMatchPos = pos - start
          in do {
               snippet0 \<leftarrow> substr line start (end1 - start);
               snippet1 \<leftarrow> str_insert snippet0 (snippetMatchPos + length query) color_reset;
               snippet2 \<leftarrow> str_insert snippet1 snippetMatchPos color_red;
               let snippet3 = (if truncatedLeft then ''... '' @ snippet2 else snippet2);
               Some (if truncatedRight then snippet3 @ '' ...'' else snippet3)
             })"

text \<open>
  What \<open>searchInFile\<close> stores for a matched line: the snippet for the window of 180
  characters, passed through \<open>sanitizeLine\<close>.
\<close>

definition reported_snippet :: "string \<Rightarrow> string \<Rightarrow> string option" where
  "reported_snippet line query = map_option sanitizeLine (truncateAndHighlightMatch line query 180)"


section \<open>searchInFile\<close>

record MatchInfo =
  lineNumber :: nat
  matchText :: string

text \<open>
  \<open>std::getline\<close> on the unread rest of the stream: it fails when nothing is left;
  otherwise it extracts the bytes before the next line feed, consumes the line feed
  and leaves what follows.  The stream is opened in binary mode, so no byte is
  translated.
\<close>

fun getline :: "string \<Rightarrow> (string \<times> string) option" where
  "getline [] = None"
| "getline (c # cs) =
     Some (takeWhile (\<lambda>x. x \<noteq> CHR 0x0A) (c # cs),
           drop 1 (dropWhile (\<lambda>x. x \<noteq> CHR 0x0A) (c # cs)))"

lemma getline_shorter: "getline ifs = Some (line, rest) \<Longrightarrow> length rest < length ifs"
proof (cases ifs)
  case Nil
  assume "getline ifs = Some (line, rest)"
  with Nil show ?thesis by simp
next
  case (Cons c cs)
  assume "getline ifs = Some (line, rest)"
  with Cons have "length rest = length (dropWhile (\<lambda>x. x \<noteq> CHR 0x0A) ifs) - 1" by auto
  moreover have "length (dropWhile (\<lambda>x. x \<noteq> CHR 0x0A) ifs) \<le> length ifs"
    by (rule length_dropWhile_le)
  moreover have "length ifs = Suc (length cs)" using Cons by simp
  ultimately show ?thesis by arith
qed

text \<open>
  The \<open>while (std::getline(ifs, line))\<close> loop.  Its state is the unread rest of the
  stream, \<open>lineNumber\<close>, the \<open>matches\<close> vector and the status record; \<open>found\<close> is the
  test of the loop body for the mode in force.  The field \<open>text\<close> of the local struct
  is called \<open>matchText\<close> here.
\<close>

function read_loop ::
  "(string \<Rightarrow> bool) \<Rightarrow> string \<Rightarrow> string \<Rightarrow> nat \<Rightarrow> MatchInfo list \<Rightarrow> StatusData
     \<Rightarrow> (MatchInfo list \<times> StatusData) option" where
  "read_loop found query ifs n matches st =
     (case getline ifs of
        None \<Rightarrow> Some (matches, st)
      | Some (line, rest) \<Rightarrow>
          if found line
          then (case reported_snippet line query of
                  None \<Rightarrow> None
                | Some snippet \<Rightarrow>
                    read_loop found query rest (n + 1)
                      (matches @ [\<lparr>lineNumber = n, matchText = snippet\<rparr>])
                      (st\<lparr>fileHits := fileHits st + 1, totalHits := totalHits st + 1\<rparr>))
          else read_loop found query rest (n + 1) matches st)"
  by pat_completeness auto
termination
  by (relation "measure (\<lambda>(found, query, ifs, n, matches, st). length ifs)")
     (auto dest: getline_shorter)

declare read_loop.simps [simp del]

text \<open>The lines of a file, as successive calls of \<open>getline\<close> deliver them.\<close>

function file_lines :: "string \<Rightarrow> string list" where
  "file_lines ifs =
     (case getline ifs of None \<Rightarrow> [] | Some (line, rest) \<Rightarrow> line # file_lines rest)"
  by pat_completeness auto
termination
  by (relation "measure length") (auto dest: getline_shorter)

declare file_lines.simps [simp del]

text \<open>Decimal output of a \<open>size_t\<close> on the results stream.\<close>

fun to_dec :: "nat \<Rightarrow> string" where
  "to_dec n =
     (if n < 10 then [''0123456789'' ! n] else to_dec (n div 10) @ [''0123456789'' ! (n mod 10)])"

declare to_dec.simps [simp del]

text \<open>The text written to \<open>g_resultsFile\<close> for a non-empty \<open>matches\<close> vector.\<close>

definition write_block :: "path \<Rightarrow> MatchInfo list \<Rightarrow> string" where
  "write_block filePath matches =
     ''Matches in file: '' @ filePath @ '' ('' @ to_dec (length matches) @ '' hits)'' @ [CHR 0x0A]
     @ foldl (\<lambda>out m. out @ ''    Line '' @ to_dec (lineNumber m) @ '': '' @ matchText m @ [CHR 0x0A])
         [] matches
     @ [CHR 0x0A]"

text \<open>
  The regular-expression library is not part of the repository: \<open>regex_compile\<close>
  stands for the constructor \<open>std::regex(query)\<close> (\<open>None\<close> when it throws
  \<open>std::regex_error\<close>) and \<open>regex_search\<close> for \<open>std::regex_search\<close>, both parameters of
  the model.  In substring mode the pattern is absent and the test is
  \<open>line.find(query) != npos\<close>.
\<close>

definition line_found ::
  "('r \<Rightarrow> string \<Rightarrow> bool) \<Rightarrow> 'r option \<Rightarrow> string \<Rightarrow> string \<Rightarrow> bool" where
  "line_found regex_search pattern query line =
     (case pattern of
        Some r \<Rightarrow> regex_search r line
      | None \<Rightarrow> str_find line query \<noteq> None)"

text \<open>
  \<open>fs\<close> is the file system as the stream constructor sees it: the contents of the
  file, or \<open>None\<close> when it cannot be opened.  The result \<open>None\<close> is an exception leaving
  the function.
\<close>

definition searchInFile ::
  "(string \<Rightarrow> 'r option) \<Rightarrow> ('r \<Rightarrow> string \<Rightarrow> bool) \<Rightarrow> (path \<Rightarrow> string option)
     \<Rightarrow> path \<Rightarrow> string \<Rightarrow> bool \<Rightarrow> globals \<Rightarrow> globals option" where
  "searchInFile regex_compile regex_search fs filePath query use_regex g =
     (case fs filePath of
        None \<Rightarrow>
          Some (g\<lparr>g_status := (g_status g)\<lparr>lastError := ''Could not open: '' @ filePath\<rparr>\<rparr>)
      | Some ifs \<Rightarrow>
          let g1 = g\<lparr>opened := opened g @ [filePath]\<rparr> in
          if use_regex \<and> regex_compile query = None
          then Some (g1\<lparr>g_status := (g_status g1)\<lparr>lastError := ''Invalid regex: '' @ query\<rparr>\<rparr>)
          else
            (case read_loop
                    (line_found regex_search (if use_regex then regex_compile query else None) query)
                    query ifs 1 [] (g_status g1) of
               None \<Rightarrow> None
             | Some (matches, st) \<Rightarrow>
                 let g2 = g1\<lparr>g_filesProcessed := g_filesProcessed g1 + 1,
                             g_status := st\<lparr>filesScanned := filesScanned st + 1\<rparr>\<rparr>
                 in if matches \<noteq> []
                    then Some (g2\<lparr>g_resultsFile := g_resultsFile g2 @ write_block filePath matches\<rparr>)
                    else Some g2))"


section \<open>wildcardToRegex and matchesWildcard\<close>

text \<open>The characters of the \<open>switch\<close> that are written with a backslash before them.\<close>

definition regex_special :: "char \<Rightarrow> bool" where
  "regex_special c =
     (c \<in> set [CHR ''.'', CHR 0x5C, CHR ''+'', CHR ''^'', CHR ''$'', CHR ''('', CHR '')'',
                CHR ''{'', CHR ''}'', CHR ''['', CHR '']'', CHR ''|'', CHR ''/''])"

definition wildcardToRegex :: "string \<Rightarrow> string" where
  "wildcardToRegex wildcard =
     foldl (\<lambda>regexStr c.
              if c = CHR ''*'' then regexStr @ ''.*''
              else if c = CHR ''?'' then regexStr @ ''.''
              else if regex_special c then regexStr @ [CHR 0x5C, c]
              else regexStr @ [c])
       ''^'' wildcard
     @ ''$''"

text \<open>The translation of one wildcard character, for the statements about the loop.\<close>

definition wildcard_char :: "char \<Rightarrow> string" where
  "wildcard_char c =
     (if c = CHR ''*'' then ''.*''
      else if c = CHR ''?'' then ''.''
      else if regex_special c then [CHR 0x5C, c]
      else [c])"

text \<open>
  \<open>std::regex\<close> is library code.  The model below is the part of its default
  (ECMAScript) grammar that \<open>wildcardToRegex\<close> can produce: the assertions \<open>^\<close> and
  \<open>$\<close>, the wildcard \<open>.\<close> (any character but a line feed or carriage return), \<open>.*\<close>, a
  backslash before a punctuation character (that character itself), and ordinary
  characters.  \<open>regex_parse\<close> is the constructor; it answers \<open>None\<close>, the
  \<open>std::regex_error\<close> of the constructor, for an incomplete escape and for every
  pattern outside this part of the grammar.  \<open>rx_match\<close> is \<open>std::regex_match\<close> (the
  whole string must match) under the flag \<open>icase\<close>, characters compared after
  \<open>tolower\<close> of the C locale; its flag says whether the position is the start of the
  input.
\<close>

datatype rx_node = RxBegin | RxEnd | RxAny | RxAnyStar | RxChar char

fun regex_parse :: "string \<Rightarrow> rx_node list option" where
  "regex_parse [] = Some []"
| "regex_parse (c # cs) =
     (if c = CHR ''^'' then map_option ((#) RxBegin) (regex_parse cs)
      else if c = CHR ''$'' then map_option ((#) RxEnd) (regex_parse cs)
      else if c = CHR ''.'' then
        (case cs of
           d # ds \<Rightarrow> if d = CHR ''*'' then map_option ((#) RxAnyStar) (regex_parse ds)
                     else map_option ((#) RxAny) (regex_parse cs)
         | [] \<Rightarrow> Some [RxAny])
      else if c = CHR 0x5C then
        (case cs of
           d # ds \<Rightarrow> if regex_special d then map_option ((#) (RxChar d)) (regex_parse ds) else None
         | [] \<Rightarrow> None)
      else if c \<in> set ''*+?(){}[]|'' then None
      else map_option ((#) (RxChar c)) (regex_parse cs))"

text \<open>The node that \<open>regex_parse\<close> builds for the translation of one wildcard character.\<close>

definition wildcard_node :: "char \<Rightarrow> rx_node" where
  "wildcard_node c =
     (if c = CHR ''*'' then RxAnyStar else if c = CHR ''?'' then RxAny else RxChar c)"

definition any_char :: "char \<Rightarrow> bool" where
  "any_char c = (c \<noteq> CHR 0x0A \<and> c \<noteq> CHR 0x0D)"

definition tolower :: "char \<Rightarrow> char" where
  "tolower c =
     (if 65 \<le> (of_char c :: nat) \<and> (of_char c :: nat) \<le> 90
      then char_of (of_char c + (32 :: nat)) else c)"

fun rx_match :: "rx_node list \<Rightarrow> bool \<Rightarrow> string \<Rightarrow> bool" where
  "rx_match [] at_begin s = (s = [])"
| "rx_match (RxBegin # r) at_begin s = (at_begin \<and> rx_match r at_begin s)"
| "rx_match (RxEnd # r) at_begin s = (s = [] \<and> rx_match r at_begin s)"
| "rx_match (RxAny # r) at_begin [] = False"
| "rx_match (RxAny # r) at_begin (c # s) = (any_char c \<and> rx_match r False s)"
| "rx_match (RxChar x # r) at_begin [] = False"
| "rx_match (RxChar x # r) at_begin (c # s) = (tolower x = tolower c \<and> rx_match r False s)"
| "rx_match (RxAnyStar # r) at_begin [] = rx_match r at_begin []"
| "rx_match (RxAnyStar # r) at_begin (c # s) =
     (rx_match r at_begin (c # s) \<or> (any_char c \<and> rx_match (RxAnyStar # r) False s))"

definition matchesWildcard :: "string \<Rightarrow> rx_node list \<Rightarrow> bool" where
  "matchesWildcard filename wildcardRegex = rx_match wildcardRegex True filename"

text \<open>
  The meaning of a wildcard, written directly on it, for comparison with the pattern
  that \<open>wildcardToRegex\<close> produces: \<open>*\<close> stands for zero or more characters, \<open>?\<close> for
  exactly one, any other character for itself (letters without regard to case).  The
  characters that \<open>*\<close> and \<open>?\<close> stand for are those the wildcard \<open>.\<close> of the library
  accepts.
\<close>

fun wildcard_match :: "string \<Rightarrow> string \<Rightarrow> bool" where
  "wildcard_match [] s = (s = [])"
| "wildcard_match (w # ws) [] = (w = CHR ''*'' \<and> wildcard_match ws [])"
| "wildcard_match (w # ws) (c # s) =
     (if w = CHR ''*''
      then wildcard_match ws (c # s) \<or> (any_char c \<and> wildcard_match (w # ws) s)
      else if w = CHR ''?'' then any_char c \<and> wildcard_match ws s
      else tolower w = tolower c \<and> wildcard_match ws s)"


section \<open>searchInDirectory\<close>

text \<open>
  One step of the recursive directory iterator yields an entry: its path and what
  \<open>is_regular_file()\<close> answers for it, \<open>Inl what\<close> when the call throws.  The walk as a
  whole is the list of entries delivered and, when the iterator itself throws (at
  construction or on an increment), the message of that exception.
\<close>

record dir_entry =
  entry_path :: path
  is_regular_file :: "string + bool"

text \<open>\<open>path::filename()\<close>: the component after the last separator.\<close>

definition filename :: "path \<Rightarrow> string" where
  "filename p = rev (takeWhile (\<lambda>c. c \<noteq> CHR ''/'') (rev p))"

text \<open>
  What the producer thread does, in order: calls of \<open>fileQueue.push\<close>, assignments to
  \<open>g_status.lastError\<close>, and calls of \<open>fileQueue.setFinished\<close>.
\<close>

datatype producer_action = CallPush path | SetLastError string | CallSetFinished

text \<open>
  The inner \<open>try\<close> block with its handler, for one entry.  The message keeps the
  two characters \<open>/n\<close> of the source.
\<close>

definition producer_entry :: "rx_node list option \<Rightarrow> dir_entry \<Rightarrow> producer_action list" where
  "producer_entry wildcardRegex entry =
     (case is_regular_file entry of
        Inl what \<Rightarrow>
          [SetLastError (''Error reading an entry: '' @ entry_path entry @ ''/n'' @ what)]
      | Inr regular \<Rightarrow>
          if \<not> regular then []
          else (case wildcardRegex of
                  Some r \<Rightarrow>
                    if \<not> matchesWildcard (filename (entry_path entry)) r then []
                    else [CallPush (entry_path entry)]
                | None \<Rightarrow> [CallPush (entry_path entry)]))"

text \<open>
  The producer lambda: the loop over the entries, the handler of the outer \<open>try\<close>
  for a failure of the iterator, then the statement after the \<open>try\<close>.
\<close>

definition producer ::
  "rx_node list option \<Rightarrow> path \<Rightarrow> dir_entry list \<Rightarrow> string option \<Rightarrow> producer_action list" where
  "producer wildcardRegex directory entries failure =
     foldl (\<lambda>acts entry. acts @ producer_entry wildcardRegex entry) [] entries
     @ (case failure of
          Some what \<Rightarrow> [SetLastError (''Error scanning directory: '' @ directory @ ''/n'' @ what)]
        | None \<Rightarrow> [])
     @ [CallSetFinished]"

fun pushed_paths :: "producer_action list \<Rightarrow> path list" where
  "pushed_paths [] = []"
| "pushed_paths (CallPush p # acts) = p # pushed_paths acts"
| "pushed_paths (a # acts) = pushed_paths acts"

text \<open>The body of the worker loop after a successful \<open>pop\<close>.\<close>

definition worker_body ::
  "(string \<Rightarrow> 'r option) \<Rightarrow> ('r \<Rightarrow> string \<Rightarrow> bool) \<Rightarrow> (path \<Rightarrow> string option)
     \<Rightarrow> string \<Rightarrow> bool \<Rightarrow> path \<Rightarrow> globals \<Rightarrow> globals option" where
  "worker_body regex_compile regex_search fs query use_regex filePath g =
     searchInFile regex_compile regex_search fs filePath query use_regex
       (g\<lparr>g_status := (g_status g)\<lparr>currentFile := filePath, fileHits := 0\<rparr>\<rparr>)"

text \<open>
  The threads are run in the schedule in which one worker takes each path as soon as
  the producer has pushed it: the order in which a single worker receives the tasks.
  Each producer action is followed by the worker steps it enables.  \<open>None\<close> means that
  the schedule cannot go on (a call blocked for good, or an exception left a thread).
\<close>

fun run_action ::
  "(string \<Rightarrow> 'r option) \<Rightarrow> ('r \<Rightarrow> string \<Rightarrow> bool) \<Rightarrow> (path \<Rightarrow> string option)
     \<Rightarrow> string \<Rightarrow> bool \<Rightarrow> (BoundedFileQueue \<times> globals) option \<Rightarrow> producer_action
     \<Rightarrow> (BoundedFileQueue \<times> globals) option" where
  "run_action rc rs fs query use_regex None a = None"
| "run_action rc rs fs query use_regex (Some (q, g)) (CallPush p) =
     (case push q p of
        None \<Rightarrow> None
      | Some q1 \<Rightarrow>
          (case pop q1 of
             None \<Rightarrow> None
           | Some (None, q2) \<Rightarrow> Some (q2, g)
           | Some (Some filePath, q2) \<Rightarrow>
               map_option (Pair q2) (worker_body rc rs fs query use_regex filePath g)))"
| "run_action rc rs fs query use_regex (Some (q, g)) (SetLastError e) =
     Some (q, g\<lparr>g_status := (g_status g)\<lparr>lastError := e\<rparr>\<rparr>)"
| "run_action rc rs fs query use_regex (Some (q, g)) CallSetFinished = Some (setFinished q, g)"

datatype scan_exit = ResultsFileError | FilePatternError | ScanFinished

definition MAX_QUEUE_SIZE :: nat where
  "MAX_QUEUE_SIZE = 10000"

text \<open>
  \<open>searchInDirectory\<close>.  \<open>results_open\<close> says whether \<open>search_results.txt\<close> can be opened
  for writing; opening it truncates it.  The two early returns come first, then the
  pipeline.  The monitor thread only prints and is left out.
\<close>

definition searchInDirectory ::
  "(string \<Rightarrow> 'r option) \<Rightarrow> ('r \<Rightarrow> string \<Rightarrow> bool) \<Rightarrow> bool \<Rightarrow> (path \<Rightarrow> string option)
     \<Rightarrow> dir_entry list \<Rightarrow> string option
     \<Rightarrow> string \<Rightarrow> path \<Rightarrow> bool \<Rightarrow> string option \<Rightarrow> globals
     \<Rightarrow> (scan_exit \<times> globals) option" where
  "searchInDirectory rc rs results_open fs entries failure query directory use_regex filePattern g =
     (if \<not> results_open then Some (ResultsFileError, g)
      else
        let g0 = g\<lparr>g_resultsFile := []\<rparr> in
        (case (case filePattern of
                 None \<Rightarrow> Some None
               | Some pat \<Rightarrow> map_option Some (regex_parse (wildcardToRegex pat))) of
           None \<Rightarrow> Some (FilePatternError, g0)
         | Some wildcardRegex \<Rightarrow>
             map_option (\<lambda>(q, g'). (ScanFinished, g'))
               (foldl (run_action rc rs fs query use_regex)
                  (Some (BoundedFileQueue_init MAX_QUEUE_SIZE, g0))
                  (producer wildcardRegex directory entries failure))))"


text \<open>The state at program start: the static initialisers, nothing written, nothing opened.\<close>

definition globals_init :: globals where
  "globals_init =
     \<lparr>g_status = StatusData_init, g_resultsFile = [], g_filesProcessed = 0, opened = []\<rparr>"


section \<open>Properties of the bounded queue\<close>

lemma exec_op_maxSize: "maxSize (exec_op q op) = maxSize q"
  by (cases op) (auto simp: push_def pop_def setFinished_def split: list.splits)

lemma exec_op_bounded:
  "length (queue q) \<le> maxSize q \<Longrightarrow> length (queue (exec_op q op)) \<le> maxSize q"
  by (cases op) (auto simp: push_def pop_def setFinished_def split: list.splits)

lemma exec_ops_bounded:
  "length (queue q) \<le> maxSize q \<Longrightarrow>
     length (queue (foldl exec_op q ops)) \<le> maxSize q \<and> maxSize (foldl exec_op q ops) = maxSize q"
proof (induction ops arbitrary: q)
  case Nil
  then show ?case by simp
next
  case (Cons op ops)
  have "length (queue (exec_op q op)) \<le> maxSize (exec_op q op)"
    using Cons.prems by (simp add: exec_op_bounded exec_op_maxSize)
  from Cons.IH [OF this] show ?case by (simp add: exec_op_maxSize)
qed

lemma exec_op_drained:
  "queue q = [] \<Longrightarrow> finished q \<Longrightarrow> exec_op q op = q"
  by (cases op) (auto simp: push_def pop_def setFinished_def)

lemma exec_ops_drained:
  "queue q = [] \<Longrightarrow> finished q \<Longrightarrow> foldl exec_op q ops = q"
  by (induction ops) (simp_all add: exec_op_drained)

text \<open>
  Claim C3.  Starting from a freshly constructed queue of capacity \<open>C\<close>, after any
  sequence of push, pop and setFinished calls the number of queued paths lies between
  \<open>0\<close> and \<open>C\<close>.  A push on a queue whose length equals its capacity inserts nothing
  (it is blocked, or returns with the queue unchanged when finished), and a pop on an
  empty queue removes nothing (it is blocked, or returns \<open>false\<close> with the queue still
  empty).
\<close>

theorem queue_capacity_invariant:
  "0 \<le> int (length (queue (exec_ops (BoundedFileQueue_init C) ops)))
   \<and> int (length (queue (exec_ops (BoundedFileQueue_init C) ops))) \<le> int C
   \<and> (length (queue q) = maxSize q \<longrightarrow> push q p = None \<or> push q p = Some q)
   \<and> (queue q = [] \<longrightarrow> pop q = None \<or> pop q = Some (None, q))"
proof -
  have "length (queue (BoundedFileQueue_init C)) \<le> maxSize (BoundedFileQueue_init C)"
    by (simp add: BoundedFileQueue_init_def)
  from exec_ops_bounded [OF this, of ops]
  have "length (queue (exec_ops (BoundedFileQueue_init C) ops)) \<le> C"
    by (simp add: exec_ops_def BoundedFileQueue_init_def)
  moreover have "length (queue q) = maxSize q \<longrightarrow> push q p = None \<or> push q p = Some q"
    by (simp add: push_def)
  moreover have "queue q = [] \<longrightarrow> pop q = None \<or> pop q = Some (None, q)"
    by (simp add: pop_def)
  ultimately show ?thesis by simp
qed

theorem queue_capacity_invariant_witness:
  "int (length (queue (exec_ops (BoundedFileQueue_init 2)
       [Push ''a'', Push ''b'', Push ''c'', Pop, Pop, Pop, SetFinished, Push ''d'']))) \<le> 2
   \<and> length (queue \<lparr>queue = [''a'', ''b''], maxSize = 2, finished = False\<rparr>)
       = maxSize \<lparr>queue = [''a'', ''b''], maxSize = 2, finished = False\<rparr>
   \<and> push \<lparr>queue = [''a'', ''b''], maxSize = 2, finished = False\<rparr> ''c'' = None
   \<and> queue \<lparr>queue = [''a'', ''b''], maxSize = 2, finished = False\<rparr> \<noteq> []
   \<and> queue (BoundedFileQueue_init 2) = []
   \<and> pop (BoundedFileQueue_init 2) = None"
  using queue_capacity_invariant
    [of 2 "[Push ''a'', Push ''b'', Push ''c'', Pop, Pop, Pop, SetFinished, Push ''d'']"
        "\<lparr>queue = [''a'', ''b''], maxSize = 2, finished = False\<rparr>" "''c''"]
    queue_capacity_invariant [of 2 "[]" "BoundedFileQueue_init 2" "''c''"]
  by (simp add: push_def pop_def BoundedFileQueue_init_def)

text \<open>
  Claim C4.  \<open>pop\<close> is blocked while the queue is empty and \<open>finished\<close> is false.  On a
  non-empty queue it removes and returns the head, and since \<open>push\<close> appends at the
  tail the order is first-in first-out.  On an empty, finished queue it returns
  \<open>false\<close> (EndOfStream) and leaves the queue as it is; no later sequence of calls
  changes such a queue, so every later \<open>pop\<close> returns EndOfStream as well.
\<close>

theorem pop_contract:
  "(queue q = [] \<and> \<not> finished q \<longrightarrow> pop q = None)
   \<and> (queue q = x # xs \<longrightarrow> pop q = Some (Some x, q\<lparr>queue := xs\<rparr>))
   \<and> (\<not> finished q \<and> length (queue q) < maxSize q \<longrightarrow>
        push q p = Some (q\<lparr>queue := queue q @ [p]\<rparr>))
   \<and> (queue q = [] \<and> finished q \<longrightarrow>
        pop q = Some (None, q) \<and> exec_ops q ops = q \<and> pop (exec_ops q ops) = Some (None, q))"
proof -
  have "queue q = [] \<and> finished q \<longrightarrow> exec_ops q ops = q"
    by (simp add: exec_ops_def exec_ops_drained)
  then show ?thesis
    by (auto simp: pop_def push_def)
qed

theorem pop_contract_witness:
  "pop (BoundedFileQueue_init 3) = None
   \<and> pop \<lparr>queue = [''a'', ''b''], maxSize = 3, finished = False\<rparr>
       = Some (Some ''a'', \<lparr>queue = [''b''], maxSize = 3, finished = False\<rparr>)
   \<and> push \<lparr>queue = [''a'', ''b''], maxSize = 3, finished = False\<rparr> ''c''
       = Some \<lparr>queue = [''a'', ''b'', ''c''], maxSize = 3, finished = False\<rparr>
   \<and> pop \<lparr>queue = [], maxSize = 3, finished = True\<rparr>
       = Some (None, \<lparr>queue = [], maxSize = 3, finished = True\<rparr>)
   \<and> pop (exec_ops \<lparr>queue = [], maxSize = 3, finished = True\<rparr> [Push ''z'', Pop, SetFinished, Pop])
       = Some (None, \<lparr>queue = [], maxSize = 3, finished = True\<rparr>)"
  using pop_contract [of "BoundedFileQueue_init 3" "''a''" "[''b'']" "''c''" "[]"]
    pop_contract [of "\<lparr>queue = [''a'', ''b''], maxSize = 3, finished = False\<rparr>"
                     "''a''" "[''b'']" "''c''" "[]"]
    pop_contract [of "\<lparr>queue = [], maxSize = 3, finished = True\<rparr>" "''a''" "[]" "''c''"
                     "[Push ''z'', Pop, SetFinished, Pop]"]
  by (simp add: BoundedFileQueue_init_def)

section \<open>Properties of sanitizeLine\<close>

lemma to_hex_byte:
  "n < 256 \<Longrightarrow> setw_fill 2 (CHR ''0'') (to_hex n) = [hex_digit (n div 16), hex_digit (n mod 16)]"
proof (cases "n < 16")
  case True
  then show ?thesis by (simp add: to_hex.simps [of n] setw_fill_def hex_digit_def)
next
  case False
  assume "n < 256"
  with False have "n div 16 < 16" by simp
  with False show ?thesis
    by (simp add: to_hex.simps [of n] to_hex.simps [of "n div 16"] setw_fill_def)
qed

lemma hex_digit_printable:
  "d < 16 \<Longrightarrow> 32 \<le> (of_char (hex_digit d) :: nat) \<and> (of_char (hex_digit d) :: nat) < 127"
proof -
  assume "d < 16"
  then have "d = 0 \<or> d = 1 \<or> d = 2 \<or> d = 3 \<or> d = 4 \<or> d = 5 \<or> d = 6 \<or> d = 7 \<or> d = 8
      \<or> d = 9 \<or> d = 10 \<or> d = 11 \<or> d = 12 \<or> d = 13 \<or> d = 14 \<or> d = 15" by arith
  then show ?thesis by (auto simp: hex_digit_def)
qed

lemma sanitize_foldl:
  "foldl (\<lambda>oss c.
        if (32 \<le> (of_char c :: nat) \<and> (of_char c :: nat) < 127) \<or> c = CHR 0x09
        then oss @ [c]
        else oss @ [CHR 0x5C, CHR ''x''] @ setw_fill 2 (CHR ''0'') (to_hex (of_char c)))
       acc line
   = acc @ concat (map (\<lambda>c. if keep_byte c then [c] else escape_byte c) line)"
  by (induction line arbitrary: acc) (simp_all add: to_hex_byte keep_byte_def escape_byte_def)

lemma sanitizeLine_map:
  "sanitizeLine line = concat (map (\<lambda>c. if keep_byte c then [c] else escape_byte c) line)"
  by (simp add: sanitizeLine_def sanitize_foldl)

lemma sanitizeLine_append: "sanitizeLine (xs @ ys) = sanitizeLine xs @ sanitizeLine ys"
  by (simp add: sanitizeLine_map)

lemma sanitizeLine_Nil: "sanitizeLine [] = []"
  by (simp add: sanitizeLine_map)

lemma sanitizeLine_Cons:
  "sanitizeLine (c # cs) = (if keep_byte c then [c] else escape_byte c) @ sanitizeLine cs"
  by (simp add: sanitizeLine_map)

lemma sanitizeLine_keep: "list_all keep_byte xs \<Longrightarrow> sanitizeLine xs = xs"
  by (induction xs) (simp_all add: sanitizeLine_map)

lemma escape_byte_safe: "list_all keep_byte (escape_byte c)"
proof -
  have "(of_char c :: nat) < 256" by simp
  then have "(of_char c :: nat) div 16 < 16" and "(of_char c :: nat) mod 16 < 16"
    by arith+
  then show ?thesis
    using hex_digit_printable by (simp add: escape_byte_def keep_byte_def)
qed

lemma sanitizeLine_safe: "list_all keep_byte (sanitizeLine line)"
  by (induction line) (simp_all add: sanitizeLine_map escape_byte_safe)

text \<open>
  Claim C6.  \<open>sanitizeLine\<close> works byte by byte: a byte that is printable ASCII
  (32 to 126) or a tab is copied, every other byte becomes the four characters
  backslash, \<open>x\<close> and its two hexadecimal digits (high digit first, lower case).  A line
  that contains the byte 7 yields a text that contains backslash, \<open>x\<close>, \<open>0\<close>, \<open>7\<close> as a
  contiguous run and does not contain the byte 7.
\<close>

theorem sanitizeLine_escapes:
  "sanitizeLine line =
     concat (map (\<lambda>c. if (32 \<le> (of_char c :: nat) \<and> (of_char c :: nat) < 127) \<or> c = CHR 0x09
                      then [c]
                      else [CHR 0x5C, CHR ''x'', hex_digit (of_char c div 16), hex_digit (of_char c mod 16)])
                 line)
   \<and> (CHR 0x07 \<in> set line \<longrightarrow>
         sublist [CHR 0x5C, CHR ''x'', CHR ''0'', CHR ''7''] (sanitizeLine line)
         \<and> CHR 0x07 \<notin> set (sanitizeLine line))"
proof -
  have a: "sanitizeLine line =
     concat (map (\<lambda>c. if (32 \<le> (of_char c :: nat) \<and> (of_char c :: nat) < 127) \<or> c = CHR 0x09
                      then [c]
                      else [CHR 0x5C, CHR ''x'', hex_digit (of_char c div 16), hex_digit (of_char c mod 16)])
                 line)"
    using sanitizeLine_map [of line] unfolding keep_byte_def escape_byte_def .
  have b: "CHR 0x07 \<notin> set (sanitizeLine line)"
  proof
    assume "CHR 0x07 \<in> set (sanitizeLine line)"
    with sanitizeLine_safe [of line] have "keep_byte (CHR 0x07)"
      by (simp add: list_all_iff)
    then show False by (simp add: keep_byte_def)
  qed
  have c: "sublist [CHR 0x5C, CHR ''x'', CHR ''0'', CHR ''7''] (sanitizeLine line)"
    if "CHR 0x07 \<in> set line"
  proof -
    from that obtain xs ys where "line = xs @ CHR 0x07 # ys"
      by (auto simp: in_set_conv_decomp)
    then have "sanitizeLine line
        = sanitizeLine xs @ [CHR 0x5C, CHR ''x'', CHR ''0'', CHR ''7''] @ sanitizeLine ys"
      by (simp add: sanitizeLine_map keep_byte_def escape_byte_def hex_digit_def)
    then show ?thesis unfolding sublist_def by blast
  qed
  from a b c show ?thesis by blast
qed

theorem sanitizeLine_escapes_witness:
  "CHR 0x07 \<in> set [CHR ''a'', CHR 0x07, CHR 0x09, CHR 0xE9]
   \<and> sanitizeLine [CHR ''a'', CHR 0x07, CHR 0x09, CHR 0xE9]
       = [CHR ''a'', CHR 0x5C, CHR ''x'', CHR ''0'', CHR ''7'', CHR 0x09,
          CHR 0x5C, CHR ''x'', CHR ''e'', CHR ''9'']
   \<and> sublist [CHR 0x5C, CHR ''x'', CHR ''0'', CHR ''7'']
        (sanitizeLine [CHR ''a'', CHR 0x07, CHR 0x09, CHR 0xE9])
   \<and> CHR 0x07 \<notin> set (sanitizeLine [CHR ''a'', CHR 0x07, CHR 0x09, CHR 0xE9])"
  using sanitizeLine_escapes [of "[CHR ''a'', CHR 0x07, CHR 0x09, CHR 0xE9]"]
  by (auto simp: hex_digit_def)

section \<open>Properties of truncateAndHighlightMatch\<close>

lemma str_find_Some:
  "str_find line q = Some pos \<Longrightarrow> pos + length q \<le> length line \<and> take (length q) (drop pos line) = q"
proof (induction line arbitrary: pos)
  case Nil
  then show ?case by (simp split: if_splits)
next
  case (Cons c cs)
  show ?case
  proof (cases "prefix q (c # cs)")
    case True
    with Cons.prems have "pos = 0" by simp
    moreover from True obtain zs where "c # cs = q @ zs" by (auto simp: prefix_def)
    ultimately show ?thesis by (metis add_0 append_eq_conv_conj drop0 le_add1 length_append)
  next
    case False
    with Cons.prems obtain p where p: "str_find cs q = Some p" "pos = Suc p" by auto
    from Cons.IH [OF p(1)] p(2) show ?thesis by simp
  qed
qed

lemma str_find_split:
  assumes "str_find line q = Some pos"
  shows "line = take pos line @ q @ drop (pos + length q) line"
proof -
  from str_find_Some [OF assms] have "take (length q) (drop pos line) = q" by simp
  then have "drop pos line = q @ drop (length q) (drop pos line)"
    by (metis append_take_drop_id)
  then have "line = take pos line @ q @ drop (length q) (drop pos line)"
    by (metis append_take_drop_id)
  then show ?thesis by (simp add: add.commute)
qed

lemma str_find_None: "str_find line q = None \<Longrightarrow> \<not> sublist q line"
proof (induction line)
  case Nil
  then show ?case by (simp split: if_splits)
next
  case (Cons c cs)
  then show ?case by (auto simp: sublist_Cons_right split: if_splits)
qed

lemma str_find_first:
  "str_find line q = Some pos \<Longrightarrow> j < pos \<Longrightarrow> \<not> prefix q (drop j line)"
proof (induction line arbitrary: pos j)
  case Nil
  then show ?case by (simp split: if_splits)
next
  case (Cons c cs)
  show ?case
  proof (cases "prefix q (c # cs)")
    case True
    with Cons.prems show ?thesis by simp
  next
    case False
    with Cons.prems obtain p where p: "str_find cs q = Some p" "pos = Suc p" by auto
    show ?thesis
    proof (cases j)
      case 0
      with False show ?thesis by simp
    next
      case (Suc j')
      with Cons.prems p have "j' < p" by simp
      from Cons.IH [OF p(1) this] Suc show ?thesis by simp
    qed
  qed
qed

lemma truncate_found:
  assumes found: "str_find line q = Some pos"
  shows "truncateAndHighlightMatch line q m =
     Some ((if m div 2 < pos then ''... '' else [])
           @ drop (pos - m div 2) (take pos line) @ color_red @ q @ color_reset
           @ take (m div 2) (drop (pos + length q) line)
           @ (if pos + length q + m div 2 < length line then '' ...'' else []))"
proof -
  define R where "R = m div 2"
  define A where "A = take pos line"
  define B where "B = drop (pos + length q) line"
  define start where "start = (if pos > R then pos - R else 0)"
  define end1 where
    "end1 = (if pos + length q + R > length line then length line else pos + length q + R)"
  from str_find_Some [OF found] have bound: "pos + length q \<le> length line" by simp
  from str_find_split [OF found] have line: "line = A @ q @ B" by (simp add: A_def B_def)
  have lenA: "length A = pos" using bound by (simp add: A_def)
  have lenB: "length B = length line - (pos + length q)" by (simp add: B_def)
  have start: "start = pos - R" "start \<le> pos" by (simp_all add: start_def)
  have end1: "pos + length q \<le> end1" "end1 \<le> length line"
    "end1 - (pos + length q) = min R (length B)"
    using bound by (auto simp: end1_def lenB)
  have "drop start line = drop start A @ q @ B"
    using start lenA by (subst line) simp
  moreover have "end1 - start = length (drop start A) + length q + min R (length B)"
    using start end1 lenA by simp
  moreover have "take (min R (length B)) B = take R B"
    by (simp add: min_def)
  ultimately have "take (end1 - start) (drop start line) = drop start A @ q @ take R B"
    by simp
  moreover have "start \<le> length line" using start bound by simp
  ultimately have s0: "substr line start (end1 - start) = Some (drop start A @ q @ take R B)"
    by (simp add: substr_def)
  have idx: "pos - start = length (drop start A)" using start lenA by simp
  have s1: "str_insert (drop start A @ q @ take R B) (pos - start + length q) color_reset
      = Some (drop start A @ q @ color_reset @ take R B)"
    by (simp add: str_insert_def idx)
  have s2: "str_insert (drop start A @ q @ color_reset @ take R B) (pos - start) color_red
      = Some (drop start A @ color_red @ q @ color_reset @ take R B)"
    by (simp add: str_insert_def idx)
  have left: "(0 < start) = (R < pos)" by (auto simp: start_def)
  have right: "(end1 < length line) = (pos + length q + R < length line)"
    by (auto simp: end1_def)
  have "truncateAndHighlightMatch line q m =
      Some ((if R < pos then ''... '' else [])
            @ drop start A @ color_red @ q @ color_reset @ take R B
            @ (if pos + length q + R < length line then '' ...'' else []))"
    unfolding truncateAndHighlightMatch_def found option.case Let_def
    unfolding R_def [symmetric] start_def [symmetric] end1_def [symmetric]
    by (simp add: s0 s1 s2 left right)
  then show ?thesis
    by (simp add: R_def A_def B_def start)
qed

lemma truncate_not_found:
  assumes "str_find line q = None"
  shows "truncateAndHighlightMatch line q m =
     Some (if length line > m then take m line @ ''...(truncated)'' else line)"
  using assms by (simp add: truncateAndHighlightMatch_def substr_def)

lemma truncate_total: "\<exists>s. truncateAndHighlightMatch line q m = Some s"
  by (cases "str_find line q") (simp_all add: truncate_found truncate_not_found)

lemma reported_total: "\<exists>s. reported_snippet line q = Some s"
  using truncate_total [of line q 180] by (auto simp: reported_snippet_def)

lemma str_find_None_iff: "str_find line q = None \<longleftrightarrow> \<not> sublist q line"
proof
  assume "str_find line q = None"
  then show "\<not> sublist q line" by (rule str_find_None)
next
  assume no: "\<not> sublist q line"
  show "str_find line q = None"
  proof (cases "str_find line q")
    case None
    then show ?thesis .
  next
    case (Some pos)
    from str_find_split [OF this] have "sublist q line"
      unfolding sublist_def by blast
    with no show ?thesis by simp
  qed
qed

lemma sanitize_color_red:
  "sanitizeLine color_red = [CHR 0x5C, CHR ''x'', CHR ''1'', CHR ''b'', CHR ''['', CHR ''3'', CHR ''1'', CHR ''m'']"
  by (simp add: color_red_def sanitizeLine_map keep_byte_def escape_byte_def hex_digit_def)

lemma sanitize_color_reset:
  "sanitizeLine color_reset = [CHR 0x5C, CHR ''x'', CHR ''1'', CHR ''b'', CHR ''['', CHR ''0'', CHR ''m'']"
  by (simp add: color_reset_def sanitizeLine_map keep_byte_def escape_byte_def hex_digit_def)

lemma sanitize_markers:
  "sanitizeLine ''... '' = ''... ''" "sanitizeLine '' ...'' = '' ...''"
  "sanitizeLine ''...(truncated)'' = ''...(truncated)''"
  by (simp_all add: sanitizeLine_map keep_byte_def)

text \<open>
  Claim C7, as amended.  In substring mode, take a line in which the first occurrence
  of the query has more than 90 characters before it and more than 90 after it:
  \<open>line = pre @ left @ query @ right @ post\<close> with \<open>left\<close> and \<open>right\<close> of 90 characters
  and \<open>pre\<close>, \<open>post\<close> not empty.  Such a line is longer than 180 characters, and the
  formatter returns the leading marker, \<open>left\<close>, the red code, exactly the query, the
  reset code, \<open>right\<close> and the trailing marker.  The reported snippet is that text
  after \<open>sanitizeLine\<close>: the two truncation markers unchanged, the margins and the
  query byte-wise sanitised, and the two colour codes with their escape character
  written as backslash, \<open>x\<close>, \<open>1\<close>, \<open>b\<close>.
\<close>

theorem snippet_window_both_sides:
  assumes "line = pre @ left @ query @ right @ post"
    and "length left = 90" and "length right = 90"
    and "pre \<noteq> []" and "post \<noteq> []"
    and "str_find line query = Some (length pre + 90)"
  shows "line_found regex_search None query line
     \<and> 180 < length line
     \<and> truncateAndHighlightMatch line query 180
         = Some (''... '' @ left @ color_red @ query @ color_reset @ right @ '' ...'')
     \<and> reported_snippet line query
         = Some (''... '' @ sanitizeLine left
                 @ [CHR 0x5C, CHR ''x'', CHR ''1'', CHR ''b'', CHR ''['', CHR ''3'', CHR ''1'', CHR ''m'']
                 @ sanitizeLine query
                 @ [CHR 0x5C, CHR ''x'', CHR ''1'', CHR ''b'', CHR ''['', CHR ''0'', CHR ''m'']
                 @ sanitizeLine right @ '' ...'')"
proof -
  have len: "180 < length line" using assms(1-5) by (cases pre; cases post) simp_all
  have a: "drop (length pre + 90 - 180 div 2) (take (length pre + 90) line) = left"
    using assms(1,2) by simp
  have b: "take (180 div 2) (drop (length pre + 90 + length query) line) = right"
    using assms(1,2,3) by simp
  have c: "180 div 2 < length pre + 90" using assms(4) by (cases pre) simp_all
  have d: "length pre + 90 + length query + 180 div 2 < length line"
    using assms(1,2,3,5) by (cases post) simp_all
  have t: "truncateAndHighlightMatch line query 180
         = Some (''... '' @ left @ color_red @ query @ color_reset @ right @ '' ...'')"
    unfolding truncate_found [OF assms(6)] a b using c d by simp
  have "reported_snippet line query
         = Some (''... '' @ sanitizeLine left
                 @ [CHR 0x5C, CHR ''x'', CHR ''1'', CHR ''b'', CHR ''['', CHR ''3'', CHR ''1'', CHR ''m'']
                 @ sanitizeLine query
                 @ [CHR 0x5C, CHR ''x'', CHR ''1'', CHR ''b'', CHR ''['', CHR ''0'', CHR ''m'']
                 @ sanitizeLine right @ '' ...'')"
    unfolding reported_snippet_def t
    by (simp only: option.map sanitizeLine_append sanitize_markers sanitize_color_red
        sanitize_color_reset append_assoc)
  with len t assms(6) show ?thesis by (simp add: line_found_def)
qed

theorem snippet_window_both_sides_witness:
  "''X'' @ replicate 90 (CHR ''a'') @ ''needle'' @ replicate 90 (CHR ''b'') @ ''Y''
     = ''X'' @ replicate 90 (CHR ''a'') @ ''needle'' @ replicate 90 (CHR ''b'') @ ''Y''
   \<and> length (replicate 90 (CHR ''a'')) = 90 \<and> length (replicate 90 (CHR ''b'')) = 90
   \<and> ''X'' \<noteq> [] \<and> ''Y'' \<noteq> []
   \<and> str_find (''X'' @ replicate 90 (CHR ''a'') @ ''needle'' @ replicate 90 (CHR ''b'') @ ''Y'') ''needle''
       = Some (length ''X'' + 90)
   \<and> reported_snippet (''X'' @ replicate 90 (CHR ''a'') @ ''needle'' @ replicate 90 (CHR ''b'') @ ''Y'') ''needle''
       = Some (''... '' @ replicate 90 (CHR ''a'')
               @ [CHR 0x5C, CHR ''x'', CHR ''1'', CHR ''b'', CHR ''['', CHR ''3'', CHR ''1'', CHR ''m'']
               @ ''needle''
               @ [CHR 0x5C, CHR ''x'', CHR ''1'', CHR ''b'', CHR ''['', CHR ''0'', CHR ''m'']
               @ replicate 90 (CHR ''b'') @ '' ...'')"
proof -
  have h2: "length (replicate 90 (CHR ''a'')) = 90" and h3: "length (replicate 90 (CHR ''b'')) = 90"
    by simp_all
  have h4: "''X'' \<noteq> []" and h5: "''Y'' \<noteq> []" by simp_all
  have h6: "str_find (''X'' @ replicate 90 (CHR ''a'') @ ''needle'' @ replicate 90 (CHR ''b'') @ ''Y'') ''needle''
       = Some (length ''X'' + 90)"
    by code_simp
  have s1: "sanitizeLine (replicate 90 (CHR ''a'')) = replicate 90 (CHR ''a'')"
    by (rule sanitizeLine_keep) (simp add: list_all_iff keep_byte_def)
  have s2: "sanitizeLine (replicate 90 (CHR ''b'')) = replicate 90 (CHR ''b'')"
    by (rule sanitizeLine_keep) (simp add: list_all_iff keep_byte_def)
  have s3: "sanitizeLine ''needle'' = ''needle''"
    by (rule sanitizeLine_keep) (simp add: keep_byte_def)
  from snippet_window_both_sides [OF refl h2 h3 h4 h5 h6, of regex_search]
  have "reported_snippet (''X'' @ replicate 90 (CHR ''a'') @ ''needle'' @ replicate 90 (CHR ''b'') @ ''Y'') ''needle''
       = Some (''... '' @ replicate 90 (CHR ''a'')
               @ [CHR 0x5C, CHR ''x'', CHR ''1'', CHR ''b'', CHR ''['', CHR ''3'', CHR ''1'', CHR ''m'']
               @ ''needle''
               @ [CHR 0x5C, CHR ''x'', CHR ''1'', CHR ''b'', CHR ''['', CHR ''0'', CHR ''m'']
               @ replicate 90 (CHR ''b'') @ '' ...'')"
    unfolding s1 s2 s3 by blast
  with h2 h3 h4 h5 h6 show ?thesis by blast
qed

text \<open>
  Claim C7 as stated fails.  The line of 185 characters below is longer than the
  window and has the match in its middle (89 characters before it, 90 after it);
  its reported snippet is the whole line with the two codes around the match and
  carries neither the leading nor the trailing truncation marker.
\<close>

theorem snippet_window_counterexample:
  "180 < length (replicate 89 (CHR ''a'') @ ''needle'' @ replicate 90 (CHR ''b''))
   \<and> str_find (replicate 89 (CHR ''a'') @ ''needle'' @ replicate 90 (CHR ''b'')) ''needle'' = Some 89
   \<and> reported_snippet (replicate 89 (CHR ''a'') @ ''needle'' @ replicate 90 (CHR ''b'')) ''needle''
       = Some (replicate 89 (CHR ''a'')
               @ [CHR 0x5C, CHR ''x'', CHR ''1'', CHR ''b'', CHR ''['', CHR ''3'', CHR ''1'', CHR ''m'']
               @ ''needle''
               @ [CHR 0x5C, CHR ''x'', CHR ''1'', CHR ''b'', CHR ''['', CHR ''0'', CHR ''m'']
               @ replicate 90 (CHR ''b''))
   \<and> \<not> prefix ''... ''
         (replicate 89 (CHR ''a'')
          @ [CHR 0x5C, CHR ''x'', CHR ''1'', CHR ''b'', CHR ''['', CHR ''3'', CHR ''1'', CHR ''m'']
          @ ''needle''
          @ [CHR 0x5C, CHR ''x'', CHR ''1'', CHR ''b'', CHR ''['', CHR ''0'', CHR ''m'']
          @ replicate 90 (CHR ''b''))
   \<and> \<not> suffix '' ...''
         (replicate 89 (CHR ''a'')
          @ [CHR 0x5C, CHR ''x'', CHR ''1'', CHR ''b'', CHR ''['', CHR ''3'', CHR ''1'', CHR ''m'']
          @ ''needle''
          @ [CHR 0x5C, CHR ''x'', CHR ''1'', CHR ''b'', CHR ''['', CHR ''0'', CHR ''m'']
          @ replicate 90 (CHR ''b''))"
  by code_simp

text \<open>
  Claim C10.  In regex mode the formatter is still handed the query text.  For a line
  that the compiled pattern matches but that does not contain the query as a
  contiguous run, the formatter inserts nothing: the snippet is the line itself, or,
  for a line longer than 180 characters, its first 180 characters followed by
  \<open>...(truncated)\<close>; the reported snippet is that text after \<open>sanitizeLine\<close>.
\<close>

theorem regex_mode_no_highlight:
  assumes "regex_compile query = Some r"
    and "regex_search r line"
    and "\<not> sublist query line"
  shows "line_found regex_search (regex_compile query) query line
     \<and> truncateAndHighlightMatch line query 180
         = Some (if 180 < length line then take 180 line @ ''...(truncated)'' else line)
     \<and> reported_snippet line query
         = Some (if 180 < length line then sanitizeLine (take 180 line) @ ''...(truncated)''
                 else sanitizeLine line)"
proof -
  from assms(3) have none: "str_find line query = None" by (simp add: str_find_None_iff)
  have "line_found regex_search (regex_compile query) query line"
    using assms(1,2) by (simp add: line_found_def)
  moreover have "reported_snippet line query
         = Some (if 180 < length line then sanitizeLine (take 180 line) @ ''...(truncated)''
                 else sanitizeLine line)"
    by (simp add: reported_snippet_def truncate_not_found [OF none] sanitizeLine_append
        sanitize_markers)
  ultimately show ?thesis by (simp add: truncate_not_found [OF none])
qed

theorem regex_mode_no_highlight_witness:
  "(\<lambda>q. if q = ''a.c'' then Some (0::nat) else None) ''a.c'' = Some 0
   \<and> (\<lambda>r l. l = ''xabcx'' \<or> l = replicate 200 (CHR ''b'')) (0::nat) ''xabcx''
   \<and> \<not> sublist ''a.c'' ''xabcx''
   \<and> reported_snippet ''xabcx'' ''a.c'' = Some ''xabcx''
   \<and> (\<lambda>r l. l = ''xabcx'' \<or> l = replicate 200 (CHR ''b'')) (0::nat) (replicate 200 (CHR ''b''))
   \<and> \<not> sublist ''a.c'' (replicate 200 (CHR ''b''))
   \<and> reported_snippet (replicate 200 (CHR ''b'')) ''a.c''
       = Some (replicate 180 (CHR ''b'') @ ''...(truncated)'')"
proof -
  let ?rc = "\<lambda>q. if q = ''a.c'' then Some (0::nat) else None"
  let ?rs = "\<lambda>(r::nat) l. l = ''xabcx'' \<or> l = replicate 200 (CHR ''b'')"
  have h1: "?rc ''a.c'' = Some 0" by simp
  have h2: "?rs 0 ''xabcx''" and h2': "?rs 0 (replicate 200 (CHR ''b''))" by simp_all
  have n1: "str_find ''xabcx'' ''a.c'' = None" by code_simp
  have n2: "str_find (replicate 200 (CHR ''b'')) ''a.c'' = None" by code_simp
  have h3: "\<not> sublist ''a.c'' ''xabcx''" by (rule str_find_None [OF n1])
  have h3': "\<not> sublist ''a.c'' (replicate 200 (CHR ''b''))" by (rule str_find_None [OF n2])
  have s1: "sanitizeLine ''xabcx'' = ''xabcx''"
    by (rule sanitizeLine_keep) (simp add: keep_byte_def)
  have s2: "sanitizeLine (replicate 180 (CHR ''b'')) = replicate 180 (CHR ''b'')"
    by (rule sanitizeLine_keep) (simp add: list_all_iff keep_byte_def)
  from regex_mode_no_highlight [of ?rc "''a.c''" 0 ?rs "''xabcx''", OF h1 h2 h3]
  have a: "reported_snippet ''xabcx'' ''a.c'' = Some ''xabcx''" by (simp add: s1)
  from regex_mode_no_highlight [of ?rc "''a.c''" 0 ?rs "replicate 200 (CHR ''b'')", OF h1 h2' h3']
  have b: "reported_snippet (replicate 200 (CHR ''b'')) ''a.c''
       = Some (replicate 180 (CHR ''b'') @ ''...(truncated)'')" by (simp add: s2)
  from h1 h2 h2' h3 h3' a b show ?thesis by blast
qed


section \<open>Properties of searchInFile on a file that cannot be opened\<close>

text \<open>
  Claim C2, as amended.  When the file cannot be opened, the per-file search records
  \<open>Could not open: <path>\<close> in \<open>lastError\<close> and returns at once: nothing is written to
  the results file, the hit counters keep their values, and \<open>filesScanned\<close> is not
  incremented.
\<close>

theorem unopened_file_not_counted:
  assumes "fs filePath = None"
  shows "searchInFile regex_compile regex_search fs filePath query use_regex g
           = Some (g\<lparr>g_status := (g_status g)\<lparr>lastError := ''Could not open: '' @ filePath\<rparr>\<rparr>)
     \<and> lastError (g_status (g\<lparr>g_status := (g_status g)\<lparr>lastError := ''Could not open: '' @ filePath\<rparr>\<rparr>))
           = ''Could not open: '' @ filePath
     \<and> g_resultsFile (g\<lparr>g_status := (g_status g)\<lparr>lastError := ''Could not open: '' @ filePath\<rparr>\<rparr>)
           = g_resultsFile g
     \<and> totalHits (g_status (g\<lparr>g_status := (g_status g)\<lparr>lastError := ''Could not open: '' @ filePath\<rparr>\<rparr>))
           = totalHits (g_status g)
     \<and> filesScanned (g_status (g\<lparr>g_status := (g_status g)\<lparr>lastError := ''Could not open: '' @ filePath\<rparr>\<rparr>))
           = filesScanned (g_status g)"
  using assms by (simp add: searchInFile_def)

theorem unopened_file_not_counted_witness:
  "(\<lambda>p. if p = ''ok.txt'' then Some ''hello'' else None) ''missing.txt'' = None
   \<and> searchInFile (\<lambda>q. None :: unit option) (\<lambda>r l. False)
         (\<lambda>p. if p = ''ok.txt'' then Some ''hello'' else None) ''missing.txt'' ''hello'' False globals_init
       = Some \<lparr>g_status = \<lparr>filesScanned = 0, currentFile = [], fileHits = 0, totalHits = 0,
                            lastError = ''Could not open: missing.txt''\<rparr>,
               g_resultsFile = [], g_filesProcessed = 0, opened = []\<rparr>"
proof -
  have h: "(\<lambda>p. if p = ''ok.txt'' then Some ''hello'' else None) ''missing.txt'' = None" by simp
  from unopened_file_not_counted [of "\<lambda>p. if p = ''ok.txt'' then Some ''hello'' else None"
      "''missing.txt''" "\<lambda>q. None :: unit option" "\<lambda>r l. False" "''hello''" False globals_init, OF h]
  show ?thesis by (simp add: globals_init_def StatusData_init_def)
qed

text \<open>
  Claim C2 as stated fails.  From the same initial state, the search of a file that
  cannot be opened leaves \<open>filesScanned\<close> at 0, while the search of a file that opens
  raises it to 1.
\<close>

theorem unopened_file_counterexample:
  "map_option (\<lambda>g. filesScanned (g_status g))
     (searchInFile (\<lambda>q. None :: unit option) (\<lambda>r l. False)
        (\<lambda>p. if p = ''ok.txt'' then Some ''hello'' else None) ''missing.txt'' ''hello'' False globals_init)
     = Some 0
   \<and> map_option (\<lambda>g. filesScanned (g_status g))
     (searchInFile (\<lambda>q. None :: unit option) (\<lambda>r l. False)
        (\<lambda>p. if p = ''ok.txt'' then Some ''hello'' else None) ''ok.txt'' ''hello'' False globals_init)
     = Some 1"
  by code_simp


section \<open>Properties of the producer\<close>

lemma producer_loop_concat:
  "foldl (\<lambda>acts entry. acts @ producer_entry wr entry) acc entries
     = acc @ concat (map (producer_entry wr) entries)"
  by (induction entries arbitrary: acc) simp_all

lemma producer_entry_no_finish: "CallSetFinished \<notin> set (producer_entry wr entry)"
  by (simp add: producer_entry_def split: sum.splits option.splits)

lemma producer_body_no_finish:
  "CallSetFinished \<notin> set (concat (map (producer_entry wr) entries)
      @ (case failure of
           Some what \<Rightarrow> [SetLastError (''Error scanning directory: '' @ directory @ ''/n'' @ what)]
         | None \<Rightarrow> []))"
  using producer_entry_no_finish by (auto split: option.splits)

lemma producer_split:
  "producer wr directory entries failure
     = (concat (map (producer_entry wr) entries)
        @ (case failure of
             Some what \<Rightarrow> [SetLastError (''Error scanning directory: '' @ directory @ ''/n'' @ what)]
           | None \<Rightarrow> []))
       @ [CallSetFinished]"
  by (simp add: producer_def producer_loop_concat)

lemma count_list_absent: "x \<notin> set xs \<Longrightarrow> count_list xs x = 0"
  by (induction xs) auto

text \<open>
  Claim C5.  Whatever the walk delivers (entries that are pushed, entries that are
  skipped, entries whose inspection throws, a failure of the iterator itself), the
  sequence of actions of the producer ends with the call of \<open>setFinished\<close>, and that
  call occurs exactly once in it.
\<close>

theorem producer_marks_finished_last:
  "last (producer wildcardRegex directory entries failure) = CallSetFinished
   \<and> count_list (producer wildcardRegex directory entries failure) CallSetFinished = 1
   \<and> CallSetFinished \<notin> set (butlast (producer wildcardRegex directory entries failure))"
proof -
  define body where "body = concat (map (producer_entry wildcardRegex) entries)
        @ (case failure of
             Some what \<Rightarrow> [SetLastError (''Error scanning directory: '' @ directory @ ''/n'' @ what)]
           | None \<Rightarrow> [])"
  have p: "producer wildcardRegex directory entries failure = body @ [CallSetFinished]"
    unfolding body_def by (rule producer_split)
  have n: "CallSetFinished \<notin> set body"
    unfolding body_def by (rule producer_body_no_finish)
  have "last (body @ [CallSetFinished]) = CallSetFinished" by simp
  moreover have "count_list (body @ [CallSetFinished]) CallSetFinished = 1"
    using count_list_absent [OF n] by simp
  moreover have "CallSetFinished \<notin> set (butlast (body @ [CallSetFinished]))"
    using n by simp
  ultimately show ?thesis unfolding p by blast
qed

theorem producer_marks_finished_last_witness:
  "producer None ''d''
     [\<lparr>entry_path = ''d/a.txt'', is_regular_file = Inr True\<rparr>,
      \<lparr>entry_path = ''d/locked'', is_regular_file = Inl ''permission''\<rparr>,
      \<lparr>entry_path = ''d/sub'', is_regular_file = Inr False\<rparr>] (Some ''io error'')
     = [CallPush ''d/a.txt'', SetLastError ''Error reading an entry: d/locked/npermission'',
        SetLastError ''Error scanning directory: d/nio error'', CallSetFinished]
   \<and> last (producer None ''d''
     [\<lparr>entry_path = ''d/a.txt'', is_regular_file = Inr True\<rparr>,
      \<lparr>entry_path = ''d/locked'', is_regular_file = Inl ''permission''\<rparr>,
      \<lparr>entry_path = ''d/sub'', is_regular_file = Inr False\<rparr>] (Some ''io error'')) = CallSetFinished
   \<and> count_list (producer None ''d''
     [\<lparr>entry_path = ''d/a.txt'', is_regular_file = Inr True\<rparr>,
      \<lparr>entry_path = ''d/locked'', is_regular_file = Inl ''permission''\<rparr>,
      \<lparr>entry_path = ''d/sub'', is_regular_file = Inr False\<rparr>] (Some ''io error'')) CallSetFinished = 1"
proof -
  have "producer None ''d''
     [\<lparr>entry_path = ''d/a.txt'', is_regular_file = Inr True\<rparr>,
      \<lparr>entry_path = ''d/locked'', is_regular_file = Inl ''permission''\<rparr>,
      \<lparr>entry_path = ''d/sub'', is_regular_file = Inr False\<rparr>] (Some ''io error'')
     = [CallPush ''d/a.txt'', SetLastError ''Error reading an entry: d/locked/npermission'',
        SetLastError ''Error scanning directory: d/nio error'', CallSetFinished]"
    by (simp add: producer_def producer_entry_def)
  with producer_marks_finished_last [of None "''d''"
     "[\<lparr>entry_path = ''d/a.txt'', is_regular_file = Inr True\<rparr>,
      \<lparr>entry_path = ''d/locked'', is_regular_file = Inl ''permission''\<rparr>,
      \<lparr>entry_path = ''d/sub'', is_regular_file = Inr False\<rparr>]" "Some ''io error''"]
  show ?thesis by blast
qed


section \<open>Properties of the filename filter\<close>

lemma wildcard_foldl:
  "foldl (\<lambda>regexStr c.
              if c = CHR ''*'' then regexStr @ ''.*''
              else if c = CHR ''?'' then regexStr @ ''.''
              else if regex_special c then regexStr @ [CHR 0x5C, c]
              else regexStr @ [c]) acc w
     = acc @ concat (map wildcard_char w)"
  by (induction w arbitrary: acc) (simp_all add: wildcard_char_def)

lemma wildcardToRegex_concat:
  "wildcardToRegex w = ''^'' @ concat (map wildcard_char w) @ ''$''"
  by (simp add: wildcardToRegex_def wildcard_foldl)

lemma body_head:
  "\<exists>d ds. concat (map wildcard_char w) @ ''$'' = d # ds \<and> d \<noteq> CHR ''*''"
  by (cases w) (auto simp: wildcard_char_def)

lemma parse_dot:
  assumes "R = d # ds" and "d \<noteq> CHR ''*''"
  shows "regex_parse (CHR ''.'' # R) = map_option ((#) RxAny) (regex_parse R)"
  using assms by simp

lemma wildcard_char_cases:
  "wildcard_char (CHR ''*'') = ''.*''"
  "wildcard_char (CHR ''?'') = ''.''"
  "c \<noteq> CHR ''*'' \<Longrightarrow> c \<noteq> CHR ''?'' \<Longrightarrow> regex_special c \<Longrightarrow> wildcard_char c = [CHR 0x5C, c]"
  "c \<noteq> CHR ''*'' \<Longrightarrow> c \<noteq> CHR ''?'' \<Longrightarrow> \<not> regex_special c \<Longrightarrow> wildcard_char c = [c]"
  by (simp_all add: wildcard_char_def)

lemma wildcard_node_cases:
  "wildcard_node (CHR ''*'') = RxAnyStar"
  "wildcard_node (CHR ''?'') = RxAny"
  "c \<noteq> CHR ''*'' \<Longrightarrow> c \<noteq> CHR ''?'' \<Longrightarrow> wildcard_node c = RxChar c"
  by (simp_all add: wildcard_node_def)

lemma parse_body:
  "regex_parse (concat (map wildcard_char w) @ ''$'') = Some (map wildcard_node w @ [RxEnd])"
proof (induction w)
  case Nil
  show ?case by simp
next
  case (Cons c w)
  define R where "R = concat (map wildcard_char w) @ ''$''"
  from body_head [of w] obtain d ds where R: "R = d # ds" "d \<noteq> CHR ''*''"
    unfolding R_def by blast
  have IH: "regex_parse R = Some (map wildcard_node w @ [RxEnd])"
    unfolding R_def by (rule Cons.IH)
  have unfold: "concat (map wildcard_char (c # w)) @ ''$'' = wildcard_char c @ R"
    by (simp add: R_def)
  consider (star) "c = CHR ''*''" | (quest) "c = CHR ''?''"
    | (special) "c \<noteq> CHR ''*''" "c \<noteq> CHR ''?''" "regex_special c"
    | (plain) "c \<noteq> CHR ''*''" "c \<noteq> CHR ''?''" "\<not> regex_special c"
    by blast
  then have "regex_parse (wildcard_char c @ R) = Some (wildcard_node c # map wildcard_node w @ [RxEnd])"
  proof cases
    case star
    then show ?thesis using IH by (simp add: wildcard_char_cases wildcard_node_cases)
  next
    case quest
    have "regex_parse (CHR ''.'' # R) = map_option ((#) RxAny) (regex_parse R)"
      using R by (rule parse_dot)
    with quest IH show ?thesis by (simp add: wildcard_char_cases wildcard_node_cases)
  next
    case special
    from special IH show ?thesis by (simp add: wildcard_char_cases wildcard_node_cases)
  next
    case plain
    then have "c \<noteq> CHR ''^''" "c \<noteq> CHR ''$''" "c \<noteq> CHR ''.''" "c \<noteq> CHR 0x5C"
      "c \<notin> set ''*+?(){}[]|''"
      by (auto simp: regex_special_def)
    with plain IH show ?thesis by (simp add: wildcard_char_cases wildcard_node_cases)
  qed
  then show ?case unfolding unfold by simp
qed

lemma parse_wildcard:
  "regex_parse (wildcardToRegex w) = Some (RxBegin # map wildcard_node w @ [RxEnd])"
  by (simp add: wildcardToRegex_concat parse_body)

lemma match_body:
  "rx_match (map wildcard_node w @ [RxEnd]) b s = wildcard_match w s"
proof (induction w s arbitrary: b rule: wildcard_match.induct)
  case (1 s)
  show ?case by simp
next
  case (2 w ws)
  then show ?case by (simp add: wildcard_node_def)
next
  case (3 w ws c s)
  then show ?case by (simp add: wildcard_node_def)
qed

lemma matchesWildcard_wildcard:
  "matchesWildcard name (RxBegin # map wildcard_node w @ [RxEnd]) = wildcard_match w name"
  by (simp add: matchesWildcard_def match_body)

lemma pushed_paths_append: "pushed_paths (xs @ ys) = pushed_paths xs @ pushed_paths ys"
  by (induction xs rule: pushed_paths.induct) simp_all

lemma pushed_paths_concat:
  "pushed_paths (concat (map f entries)) = concat (map (\<lambda>e. pushed_paths (f e)) entries)"
  by (induction entries) (simp_all add: pushed_paths_append)

lemma pushed_paths_producer:
  "pushed_paths (producer wr directory entries failure)
     = concat (map (\<lambda>e. pushed_paths (producer_entry wr e)) entries)"
  by (simp add: producer_split pushed_paths_append pushed_paths_concat split: option.splits)

lemma pushed_filtered:
  "pushed_paths (producer (Some r) directory entries failure)
     = map entry_path
         (filter (\<lambda>e. is_regular_file e = Inr True \<and> matchesWildcard (filename (entry_path e)) r)
            entries)"
  unfolding pushed_paths_producer
  by (induction entries) (auto simp: producer_entry_def split: sum.splits)

lemma filename_append:
  "CHR ''/'' \<notin> set name \<Longrightarrow> filename (directory @ ''/'' @ name) = name"
proof -
  assume "CHR ''/'' \<notin> set name"
  then have "takeWhile (\<lambda>c. c \<noteq> CHR ''/'') (rev name @ CHR ''/'' # rev directory) = rev name"
    by (subst takeWhile_append2) auto
  then show ?thesis by (simp add: filename_def)
qed

lemma wildcard_star_alone: "wildcard_match ''*'' name = list_all any_char name"
  by (induction name) auto

lemma wildcard_quest_alone: "wildcard_match ''?'' name = (length name = 1 \<and> list_all any_char name)"
  by (cases name) auto

text \<open>
  Claim C8.  With the filter \<open>*.txt\<close> and the regular files \<open>a.txt\<close> and \<open>a.log\<close> in
  the directory, the producer pushes \<open>a.txt\<close> and nothing else.  The translation
  writes \<open>.*\<close> for \<open>*\<close> and \<open>.\<close> for \<open>?\<close> between the anchors; the pattern it
  produces always compiles, and matching a name against it is matching the name
  against the wildcard, where \<open>*\<close> stands for zero or more characters and \<open>?\<close> for
  exactly one.  With a filter in force the pushed paths are exactly the regular
  files whose names match it, in the order of the walk.
\<close>

theorem wildcard_filter_txt:
  "pushed_paths (producer (regex_parse (wildcardToRegex ''*.txt'')) directory
        [\<lparr>entry_path = directory @ ''/a.txt'', is_regular_file = Inr True\<rparr>,
         \<lparr>entry_path = directory @ ''/a.log'', is_regular_file = Inr True\<rparr>] failure)
     = [directory @ ''/a.txt'']
   \<and> wildcardToRegex w = ''^'' @ concat (map wildcard_char w) @ ''$''
   \<and> wildcard_char (CHR ''*'') = ''.*'' \<and> wildcard_char (CHR ''?'') = ''.''
   \<and> regex_parse (wildcardToRegex w) = Some (RxBegin # map wildcard_node w @ [RxEnd])
   \<and> matchesWildcard name (RxBegin # map wildcard_node w @ [RxEnd]) = wildcard_match w name
   \<and> wildcard_match ''*'' name = list_all any_char name
   \<and> wildcard_match ''?'' name = (length name = 1 \<and> list_all any_char name)
   \<and> pushed_paths (producer (Some r) directory entries failure)
       = map entry_path
           (filter (\<lambda>e. is_regular_file e = Inr True \<and> matchesWildcard (filename (entry_path e)) r)
              entries)"
proof -
  have f1: "filename (directory @ ''/a.txt'') = ''a.txt''"
    using filename_append [of "''a.txt''" directory] by simp
  have f2: "filename (directory @ ''/a.log'') = ''a.log''"
    using filename_append [of "''a.log''" directory] by simp
  have m1: "wildcard_match ''*.txt'' ''a.txt''" by code_simp
  have m2: "\<not> wildcard_match ''*.txt'' ''a.log''" by code_simp
  define rx where "rx = RxBegin # map wildcard_node ''*.txt'' @ [RxEnd]"
  have p: "regex_parse (wildcardToRegex ''*.txt'') = Some rx"
    unfolding rx_def by (rule parse_wildcard)
  have k1: "matchesWildcard ''a.txt'' rx"
    unfolding rx_def matchesWildcard_wildcard by (rule m1)
  have k2: "\<not> matchesWildcard ''a.log'' rx"
    unfolding rx_def matchesWildcard_wildcard by (rule m2)
  have "pushed_paths (producer (regex_parse (wildcardToRegex ''*.txt'')) directory
        [\<lparr>entry_path = directory @ ''/a.txt'', is_regular_file = Inr True\<rparr>,
         \<lparr>entry_path = directory @ ''/a.log'', is_regular_file = Inr True\<rparr>] failure)
     = [directory @ ''/a.txt'']"
    unfolding p pushed_filtered by (simp add: f1 f2 k1 k2)
  then show ?thesis
    using wildcardToRegex_concat [of w] parse_wildcard [of w] matchesWildcard_wildcard [of name w]
      wildcard_star_alone [of name] wildcard_quest_alone [of name]
      pushed_filtered [of r directory entries failure]
    by (simp only: wildcard_char_cases simp_thms)
qed

theorem wildcard_filter_txt_witness:
  "pushed_paths (producer (regex_parse (wildcardToRegex ''*.txt'')) ''dir''
        [\<lparr>entry_path = ''dir'' @ ''/a.txt'', is_regular_file = Inr True\<rparr>,
         \<lparr>entry_path = ''dir'' @ ''/a.log'', is_regular_file = Inr True\<rparr>] None)
     = [''dir/a.txt'']
   \<and> wildcardToRegex ''*.txt''
       = [CHR ''^'', CHR ''.'', CHR ''*'', CHR 0x5C, CHR ''.'', CHR ''t'', CHR ''x'', CHR ''t'', CHR ''$'']
   \<and> regex_parse (wildcardToRegex ''*.txt'')
       = Some [RxBegin, RxAnyStar, RxChar (CHR ''.''), RxChar (CHR ''t''), RxChar (CHR ''x''),
               RxChar (CHR ''t''), RxEnd]
   \<and> matchesWildcard ''a.txt'' (RxBegin # map wildcard_node ''*.txt'' @ [RxEnd])
   \<and> \<not> matchesWildcard ''a.log'' (RxBegin # map wildcard_node ''*.txt'' @ [RxEnd])"
proof -
  have m1: "wildcard_match ''*.txt'' ''a.txt''" by code_simp
  have m2: "\<not> wildcard_match ''*.txt'' ''a.log''" by code_simp
  have w: "concat (map wildcard_char ''*.txt'')
      = [CHR ''.'', CHR ''*'', CHR 0x5C, CHR ''.'', CHR ''t'', CHR ''x'', CHR ''t'']"
    by (simp add: wildcard_char_def regex_special_def)
  have n: "map wildcard_node ''*.txt''
      = [RxAnyStar, RxChar (CHR ''.''), RxChar (CHR ''t''), RxChar (CHR ''x''), RxChar (CHR ''t'')]"
    by (simp add: wildcard_node_def)
  note T1 = wildcard_filter_txt [of "''dir''" None "''*.txt''" "''a.txt''" "[]" "[]"]
  note T2 = wildcard_filter_txt [of "''dir''" None "''*.txt''" "''a.log''" "[]" "[]"]
  from T1 have a: "pushed_paths (producer (regex_parse (wildcardToRegex ''*.txt'')) ''dir''
        [\<lparr>entry_path = ''dir'' @ ''/a.txt'', is_regular_file = Inr True\<rparr>,
         \<lparr>entry_path = ''dir'' @ ''/a.log'', is_regular_file = Inr True\<rparr>] None)
     = [''dir'' @ ''/a.txt'']" by (rule conjunct1)
  from T1 have b: "wildcardToRegex ''*.txt'' = ''^'' @ concat (map wildcard_char ''*.txt'') @ ''$''"
    by blast
  from T1 have c: "regex_parse (wildcardToRegex ''*.txt'')
      = Some (RxBegin # map wildcard_node ''*.txt'' @ [RxEnd])" by blast
  from T1 have d: "matchesWildcard ''a.txt'' (RxBegin # map wildcard_node ''*.txt'' @ [RxEnd])
      = wildcard_match ''*.txt'' ''a.txt''" by blast
  from T2 have e: "matchesWildcard ''a.log'' (RxBegin # map wildcard_node ''*.txt'' @ [RxEnd])
      = wildcard_match ''*.txt'' ''a.log''" by blast
  have a': "pushed_paths (producer (regex_parse (wildcardToRegex ''*.txt'')) ''dir''
        [\<lparr>entry_path = ''dir'' @ ''/a.txt'', is_regular_file = Inr True\<rparr>,
         \<lparr>entry_path = ''dir'' @ ''/a.log'', is_regular_file = Inr True\<rparr>] None)
     = [''dir/a.txt'']" using a by simp
  have b': "wildcardToRegex ''*.txt''
       = [CHR ''^'', CHR ''.'', CHR ''*'', CHR 0x5C, CHR ''.'', CHR ''t'', CHR ''x'', CHR ''t'', CHR ''$'']"
    unfolding b w by simp
  have c': "regex_parse (wildcardToRegex ''*.txt'')
       = Some [RxBegin, RxAnyStar, RxChar (CHR ''.''), RxChar (CHR ''t''), RxChar (CHR ''x''),
               RxChar (CHR ''t''), RxEnd]"
    unfolding c n by simp
  from a' b' c' d e m1 m2 show ?thesis by blast
qed


section \<open>The scan with a search pattern that does not compile\<close>

lemma searchInFile_invalid_regex:
  assumes "rc query = None"
  shows "searchInFile rc rs fs p query True g =
     Some (case fs p of
             None \<Rightarrow> g\<lparr>g_status := (g_status g)\<lparr>lastError := ''Could not open: '' @ p\<rparr>\<rparr>
           | Some ifs \<Rightarrow> g\<lparr>opened := opened g @ [p],
                           g_status := (g_status g)\<lparr>lastError := ''Invalid regex: '' @ query\<rparr>\<rparr>)"
  using assms by (simp add: searchInFile_def Let_def split: option.splits)

lemma queue_roundtrip:
  assumes "queue q = []" and "\<not> finished q" and "0 < maxSize q"
  shows "push q p = Some (q\<lparr>queue := [p]\<rparr>)" and "pop (q\<lparr>queue := [p]\<rparr>) = Some (Some p, q)"
  using assms by (simp_all add: push_def pop_def)

lemma run_push_invalid:
  assumes "rc query = None" and "queue q = []" and "\<not> finished q" and "0 < maxSize q"
  shows "\<exists>g'. run_action rc rs fs query True (Some (q, g)) (CallPush p) = Some (q, g')
     \<and> g_resultsFile g' = g_resultsFile g
     \<and> opened g' = opened g @ filter (\<lambda>p. fs p \<noteq> None) [p]
     \<and> filesScanned (g_status g') = filesScanned (g_status g)
     \<and> totalHits (g_status g') = totalHits (g_status g)"
  using queue_roundtrip [OF assms(2-4), of p] searchInFile_invalid_regex [of rc query, OF assms(1)]
  by (cases "fs p") (simp_all add: worker_body_def)

lemma run_actions_invalid:
  assumes "rc query = None" and "queue q = []" and "\<not> finished q" and "0 < maxSize q"
    and "CallSetFinished \<notin> set acts"
  shows "\<exists>g'. foldl (run_action rc rs fs query True) (Some (q, g)) acts = Some (q, g')
     \<and> g_resultsFile g' = g_resultsFile g
     \<and> opened g' = opened g @ filter (\<lambda>p. fs p \<noteq> None) (pushed_paths acts)
     \<and> filesScanned (g_status g') = filesScanned (g_status g)
     \<and> totalHits (g_status g') = totalHits (g_status g)"
  using assms(5)
proof (induction acts arbitrary: g)
  case Nil
  show ?case by simp
next
  case (Cons a acts)
  then have rest: "CallSetFinished \<notin> set acts" by simp
  show ?case
  proof (cases a)
    case (CallPush p)
    from run_push_invalid [of rc query q rs fs g p, OF assms(1-4)] obtain g1 where
      g1: "run_action rc rs fs query True (Some (q, g)) (CallPush p) = Some (q, g1)"
        "g_resultsFile g1 = g_resultsFile g"
        "opened g1 = opened g @ filter (\<lambda>p. fs p \<noteq> None) [p]"
        "filesScanned (g_status g1) = filesScanned (g_status g)"
        "totalHits (g_status g1) = totalHits (g_status g)" by blast
    from Cons.IH [OF rest, of g1] obtain g' where
      g': "foldl (run_action rc rs fs query True) (Some (q, g1)) acts = Some (q, g')"
        "g_resultsFile g' = g_resultsFile g1"
        "opened g' = opened g1 @ filter (\<lambda>p. fs p \<noteq> None) (pushed_paths acts)"
        "filesScanned (g_status g') = filesScanned (g_status g1)"
        "totalHits (g_status g') = totalHits (g_status g1)" by blast
    from g1 g' CallPush show ?thesis by simp
  next
    case (SetLastError e)
    let ?g1 = "g\<lparr>g_status := (g_status g)\<lparr>lastError := e\<rparr>\<rparr>"
    from Cons.IH [OF rest, of ?g1] obtain g' where
      g': "foldl (run_action rc rs fs query True) (Some (q, ?g1)) acts = Some (q, g')"
        "g_resultsFile g' = g_resultsFile ?g1"
        "opened g' = opened ?g1 @ filter (\<lambda>p. fs p \<noteq> None) (pushed_paths acts)"
        "filesScanned (g_status g') = filesScanned (g_status ?g1)"
        "totalHits (g_status g') = totalHits (g_status ?g1)" by blast
    from g' SetLastError show ?thesis by simp
  next
    case CallSetFinished
    with Cons.prems show ?thesis by simp
  qed
qed

lemma run_producer_invalid:
  assumes "rc query = None"
  shows "\<exists>g'. foldl (run_action rc rs fs query True)
              (Some (BoundedFileQueue_init MAX_QUEUE_SIZE, g0))
              (producer wr directory entries failure)
            = Some (setFinished (BoundedFileQueue_init MAX_QUEUE_SIZE), g')
     \<and> g_resultsFile g' = g_resultsFile g0
     \<and> opened g' = opened g0
           @ filter (\<lambda>p. fs p \<noteq> None) (pushed_paths (producer wr directory entries failure))
     \<and> filesScanned (g_status g') = filesScanned (g_status g0)
     \<and> totalHits (g_status g') = totalHits (g_status g0)"
proof -
  define body where "body = concat (map (producer_entry wr) entries)
        @ (case failure of
             Some what \<Rightarrow> [SetLastError (''Error scanning directory: '' @ directory @ ''/n'' @ what)]
           | None \<Rightarrow> [])"
  define q0 where "q0 = BoundedFileQueue_init MAX_QUEUE_SIZE"
  have p: "producer wr directory entries failure = body @ [CallSetFinished]"
    unfolding body_def by (rule producer_split)
  have n: "CallSetFinished \<notin> set body"
    unfolding body_def by (rule producer_body_no_finish)
  have q: "queue q0 = []" "\<not> finished q0" "0 < maxSize q0"
    by (simp_all add: q0_def BoundedFileQueue_init_def MAX_QUEUE_SIZE_def)
  from run_actions_invalid [of rc query q0 body rs fs g0, OF assms q n] obtain g' where
    g': "foldl (run_action rc rs fs query True) (Some (q0, g0)) body = Some (q0, g')"
      "g_resultsFile g' = g_resultsFile g0"
      "opened g' = opened g0 @ filter (\<lambda>p. fs p \<noteq> None) (pushed_paths body)"
      "filesScanned (g_status g') = filesScanned (g_status g0)"
      "totalHits (g_status g') = totalHits (g_status g0)" by blast
  have "foldl (run_action rc rs fs query True) (Some (q0, g0)) (body @ [CallSetFinished])
      = Some (setFinished q0, g')"
    by (simp add: g'(1))
  moreover have "pushed_paths (body @ [CallSetFinished]) = pushed_paths body"
    by (simp add: pushed_paths_append)
  ultimately show ?thesis
    unfolding p q0_def [symmetric] using g'(2-5) by auto
qed

text \<open>
  Claim C1, as amended.  When the search pattern does not compile in regex mode, the
  scan is not aborted at its start: the directory is walked and every pushed task
  is taken by a worker, which opens the file before it compiles the pattern.  A
  search whose file opens records \<open>Invalid regex: <query>\<close> in \<open>lastError\<close> and
  returns before a line is read.  So the scan runs to its end, the files opened are
  all the pushed files that can be opened, the results file stays empty, and
  neither \<open>filesScanned\<close> nor \<open>totalHits\<close> changes.
\<close>

theorem invalid_regex_scan:
  assumes "regex_compile query = None"
  shows "(\<exists>g'. searchInDirectory regex_compile regex_search True fs entries failure
                 query directory True filePattern g = Some (ScanFinished, g')
          \<and> g_resultsFile g' = []
          \<and> opened g' = opened g
               @ filter (\<lambda>p. fs p \<noteq> None)
                   (pushed_paths
                      (producer (case filePattern of
                                   None \<Rightarrow> None
                                 | Some pat \<Rightarrow> regex_parse (wildcardToRegex pat))
                         directory entries failure))
          \<and> filesScanned (g_status g') = filesScanned (g_status g)
          \<and> totalHits (g_status g') = totalHits (g_status g))
     \<and> (fs p = Some ifs \<longrightarrow>
          searchInFile regex_compile regex_search fs p query True g
            = Some (g\<lparr>opened := opened g @ [p],
                       g_status := (g_status g)\<lparr>lastError := ''Invalid regex: '' @ query\<rparr>\<rparr>))"
proof -
  define wr where
    "wr = (case filePattern of None \<Rightarrow> None | Some pat \<Rightarrow> regex_parse (wildcardToRegex pat))"
  have sel: "(case filePattern of
                 None \<Rightarrow> Some None
               | Some pat \<Rightarrow> map_option Some (regex_parse (wildcardToRegex pat))) = Some wr"
    by (cases filePattern) (simp_all add: wr_def parse_wildcard)
  from run_producer_invalid [of regex_compile query regex_search fs "g\<lparr>g_resultsFile := []\<rparr>"
      wr directory entries failure, OF assms]
  obtain g' where
    g': "foldl (run_action regex_compile regex_search fs query True)
              (Some (BoundedFileQueue_init MAX_QUEUE_SIZE, g\<lparr>g_resultsFile := []\<rparr>))
              (producer wr directory entries failure)
            = Some (setFinished (BoundedFileQueue_init MAX_QUEUE_SIZE), g')"
      "g_resultsFile g' = []"
      "opened g' = opened g
           @ filter (\<lambda>p. fs p \<noteq> None) (pushed_paths (producer wr directory entries failure))"
      "filesScanned (g_status g') = filesScanned (g_status g)"
      "totalHits (g_status g') = totalHits (g_status g)"
    by auto
  have "searchInDirectory regex_compile regex_search True fs entries failure
                 query directory True filePattern g = Some (ScanFinished, g')"
    unfolding searchInDirectory_def sel by (simp add: g'(1))
  with g'(2-5) have first: "\<exists>g'. searchInDirectory regex_compile regex_search True fs entries failure
                 query directory True filePattern g = Some (ScanFinished, g')
          \<and> g_resultsFile g' = []
          \<and> opened g' = opened g
               @ filter (\<lambda>p. fs p \<noteq> None) (pushed_paths (producer wr directory entries failure))
          \<and> filesScanned (g_status g') = filesScanned (g_status g)
          \<and> totalHits (g_status g') = totalHits (g_status g)"
    by blast
  have second: "fs p = Some ifs \<longrightarrow>
          searchInFile regex_compile regex_search fs p query True g
            = Some (g\<lparr>opened := opened g @ [p],
                       g_status := (g_status g)\<lparr>lastError := ''Invalid regex: '' @ query\<rparr>\<rparr>)"
    using searchInFile_invalid_regex [of regex_compile query regex_search fs p g, OF assms]
    by simp
  from first second show ?thesis unfolding wr_def by blast
qed

theorem invalid_regex_scan_witness:
  "(\<lambda>q. None :: unit option) ''(unclosed'' = None
   \<and> map_option (\<lambda>(e, g). (e, g_resultsFile g, opened g, filesScanned (g_status g), lastError (g_status g)))
       (searchInDirectory (\<lambda>q. None :: unit option) (\<lambda>r l. False) True
          (\<lambda>p. if p = ''d/a.txt'' then Some ''text'' else None)
          [\<lparr>entry_path = ''d/a.txt'', is_regular_file = Inr True\<rparr>,
           \<lparr>entry_path = ''d/b.txt'', is_regular_file = Inr True\<rparr>] None
          ''(unclosed'' ''d'' True None globals_init)
       = Some (ScanFinished, [], [''d/a.txt''], 0, ''Could not open: d/b.txt'')
   \<and> (\<lambda>p. if p = ''d/a.txt'' then Some ''text'' else None) ''d/a.txt'' = Some ''text''
   \<and> searchInFile (\<lambda>q. None :: unit option) (\<lambda>r l. False)
         (\<lambda>p. if p = ''d/a.txt'' then Some ''text'' else None) ''d/a.txt'' ''(unclosed'' True globals_init
       = Some (globals_init\<lparr>opened := opened globals_init @ [''d/a.txt''],
                 g_status := (g_status globals_init)\<lparr>lastError := ''Invalid regex: '' @ ''(unclosed''\<rparr>\<rparr>)"
proof -
  let ?rc = "\<lambda>q :: string. None :: unit option"
  let ?fs = "\<lambda>p. if p = ''d/a.txt'' then Some ''text'' else None"
  have h: "?rc ''(unclosed'' = None" by simp
  have f: "?fs ''d/a.txt'' = Some ''text''" by simp
  have e: "map_option (\<lambda>(e, g). (e, g_resultsFile g, opened g, filesScanned (g_status g), lastError (g_status g)))
       (searchInDirectory ?rc (\<lambda>r l. False) True ?fs
          [\<lparr>entry_path = ''d/a.txt'', is_regular_file = Inr True\<rparr>,
           \<lparr>entry_path = ''d/b.txt'', is_regular_file = Inr True\<rparr>] None
          ''(unclosed'' ''d'' True None globals_init)
       = Some (ScanFinished, [], [''d/a.txt''], 0, ''Could not open: d/b.txt'')"
    by code_simp
  from invalid_regex_scan [of ?rc "''(unclosed''" "\<lambda>r l. False" ?fs
      "[\<lparr>entry_path = ''d/a.txt'', is_regular_file = Inr True\<rparr>,
        \<lparr>entry_path = ''d/b.txt'', is_regular_file = Inr True\<rparr>]" None "''d''" None globals_init
      "''d/a.txt''" "''text''", OF h] f
  have "searchInFile ?rc (\<lambda>r l. False) ?fs ''d/a.txt'' ''(unclosed'' True globals_init
       = Some (globals_init\<lparr>opened := opened globals_init @ [''d/a.txt''],
                 g_status := (g_status globals_init)\<lparr>lastError := ''Invalid regex: '' @ ''(unclosed''\<rparr>\<rparr>)"
    by blast
  with h f e show ?thesis by blast
qed

text \<open>
  Claim C1 as stated fails.  With a pattern that does not compile and one readable
  regular file in the directory, the scan ends as every completed scan does and the
  file has been opened.
\<close>

theorem invalid_regex_counterexample:
  "(\<lambda>q. None :: unit option) ''(unclosed'' = None
   \<and> map_option (\<lambda>(e, g). (e, opened g))
       (searchInDirectory (\<lambda>q. None :: unit option) (\<lambda>r l. False) True
          (\<lambda>p. if p = ''d/a.txt'' then Some ''text'' else None)
          [\<lparr>entry_path = ''d/a.txt'', is_regular_file = Inr True\<rparr>] None
          ''(unclosed'' ''d'' True None globals_init)
       = Some (ScanFinished, [''d/a.txt''])"
  by code_simp


section \<open>The result block of a file\<close>

lemma file_lines_getline:
  "getline ifs = None \<Longrightarrow> file_lines ifs = []"
  "getline ifs = Some (line, rest) \<Longrightarrow> file_lines ifs = line # file_lines rest"
  by (simp_all add: file_lines.simps [of ifs])

lemma enumerate_hits_Cons:
  "filter (\<lambda>(k, l). found l) (enumerate n (line # ls))
     = (if found line then [(n, line)] else []) @ filter (\<lambda>(k, l). found l) (enumerate (Suc n) ls)"
  by simp

lemma read_loop_result:
  "\<exists>ms. read_loop found query ifs n matches st
          = Some (matches @ ms,
                  st\<lparr>fileHits := fileHits st + length ms, totalHits := totalHits st + length ms\<rparr>)
        \<and> map (\<lambda>m. (lineNumber m, Some (matchText m))) ms
          = map (\<lambda>(k, l). (k, reported_snippet l query))
              (filter (\<lambda>(k, l). found l) (enumerate n (file_lines ifs)))"
proof (induction found query ifs n matches st rule: read_loop.induct)
  case (1 found query ifs n matches st)
  show ?case
  proof (cases "getline ifs")
    case None
    then show ?thesis
      by (simp add: read_loop.simps [of found query ifs] file_lines_getline)
  next
    case (Some x2)
    obtain line rest where x2: "x2 = (line, rest)" by (cases x2)
    with Some have gl: "getline ifs = Some (line, rest)" by simp
    note fl = file_lines_getline(2) [OF gl]
    show ?thesis
    proof (cases "found line")
      case False
      from "1.IH"(2) [OF Some x2 [symmetric] False] obtain ms where
        ms: "read_loop found query rest (n + 1) matches st
          = Some (matches @ ms,
                  st\<lparr>fileHits := fileHits st + length ms, totalHits := totalHits st + length ms\<rparr>)"
          "map (\<lambda>m. (lineNumber m, Some (matchText m))) ms
          = map (\<lambda>(k, l). (k, reported_snippet l query))
              (filter (\<lambda>(k, l). found l) (enumerate (n + 1) (file_lines rest)))"
        by blast
      have "read_loop found query ifs n matches st = read_loop found query rest (n + 1) matches st"
        using gl False by (simp add: read_loop.simps [of found query ifs])
      with ms False show ?thesis
        by (simp add: fl)
    next
      case True
      from reported_total [of line query] obtain snippet where
        sn: "reported_snippet line query = Some snippet" by blast
      let ?m = "\<lparr>lineNumber = n, matchText = snippet\<rparr>"
      let ?st = "st\<lparr>fileHits := fileHits st + 1, totalHits := totalHits st + 1\<rparr>"
      from "1.IH"(1) [OF Some x2 [symmetric] True sn] obtain ms where
        ms: "read_loop found query rest (n + 1) (matches @ [?m]) ?st
          = Some ((matches @ [?m]) @ ms,
                  ?st\<lparr>fileHits := fileHits ?st + length ms, totalHits := totalHits ?st + length ms\<rparr>)"
          "map (\<lambda>m. (lineNumber m, Some (matchText m))) ms
          = map (\<lambda>(k, l). (k, reported_snippet l query))
              (filter (\<lambda>(k, l). found l) (enumerate (n + 1) (file_lines rest)))"
        by blast
      have step: "read_loop found query ifs n matches st
          = read_loop found query rest (n + 1) (matches @ [?m]) ?st"
        using gl True sn by (simp add: read_loop.simps [of found query ifs])
      have "read_loop found query ifs n matches st
          = Some (matches @ (?m # ms),
                  st\<lparr>fileHits := fileHits st + length (?m # ms),
                     totalHits := totalHits st + length (?m # ms)\<rparr>)"
        unfolding step ms(1) by simp
      moreover have "map (\<lambda>m. (lineNumber m, Some (matchText m))) (?m # ms)
          = map (\<lambda>(k, l). (k, reported_snippet l query))
              (filter (\<lambda>(k, l). found l) (enumerate n (file_lines ifs)))"
        using ms(2) True sn by (simp add: fl)
      ultimately show ?thesis by blast
    qed
  qed
qed

lemma write_block_concat:
  "write_block filePath matches =
     ''Matches in file: '' @ filePath @ '' ('' @ to_dec (length matches) @ '' hits)'' @ [CHR 0x0A]
     @ concat (map (\<lambda>m. ''    Line '' @ to_dec (lineNumber m) @ '': '' @ matchText m @ [CHR 0x0A]) matches)
     @ [CHR 0x0A]"
proof -
  have "foldl (\<lambda>out m. out @ ''    Line '' @ to_dec (lineNumber m) @ '': '' @ matchText m @ [CHR 0x0A])
          acc matches
      = acc @ concat (map (\<lambda>m. ''    Line '' @ to_dec (lineNumber m) @ '': '' @ matchText m @ [CHR 0x0A])
          matches)" for acc
    by (induction matches arbitrary: acc) simp_all
  then show ?thesis by (simp add: write_block_def)
qed

lemma enumerate_hits_lines:
  "map snd (filter (\<lambda>(k, l). found l) (enumerate n ls)) = filter found ls"
  by (induction ls arbitrary: n) simp_all

lemma enumerate_hits_sorted:
  "sorted_wrt (<) (map fst (filter (\<lambda>(k, l). found l) (enumerate n ls)))"
proof -
  have "sorted_wrt (<) (map fst (enumerate n ls))"
    by (simp add: sorted_wrt_upt)
  then have "sorted_wrt (\<lambda>a b. fst a < fst b) (enumerate n ls)"
    by (simp only: sorted_wrt_map)
  then have "sorted_wrt (\<lambda>a b. fst a < fst b) (filter (\<lambda>(k, l). found l) (enumerate n ls))"
    by (rule sorted_wrt_filter)
  then show ?thesis by (simp only: sorted_wrt_map)
qed

text \<open>
  Claim C9.  For a file that opens, with a pattern that compiles when regex mode is
  on, the search returns and appends to the results file either nothing, when no
  line matches, or one block: the header with the path and the number \<open>N\<close> of
  matches, then one line per match with its line number and snippet, then an empty
  line.  The matches are exactly the matching lines of the file in file order, each
  with its number (counted from 1) and its reported snippet; so \<open>N\<close> is the number
  of matching lines and the line numbers increase strictly.
\<close>

theorem result_block:
  assumes "fs filePath = Some content"
    and "use_regex \<longrightarrow> regex_compile query \<noteq> None"
  shows "\<exists>(ms :: MatchInfo list) g'.
       searchInFile regex_compile regex_search fs filePath query use_regex g = Some g'
     \<and> map (\<lambda>m. (lineNumber m, Some (matchText m))) ms
         = map (\<lambda>(k, l). (k, reported_snippet l query))
             (filter (\<lambda>(k, l). line_found regex_search
                                 (if use_regex then regex_compile query else None) query l)
                (enumerate 1 (file_lines content)))
     \<and> length ms
         = length (filter (line_found regex_search
                             (if use_regex then regex_compile query else None) query)
                     (file_lines content))
     \<and> sorted_wrt (<) (map lineNumber ms)
     \<and> g_resultsFile g'
         = g_resultsFile g
           @ (if ms = [] then []
              else ''Matches in file: '' @ filePath @ '' ('' @ to_dec (length ms) @ '' hits)''
                   @ [CHR 0x0A]
                   @ concat (map (\<lambda>m. ''    Line '' @ to_dec (lineNumber m) @ '': '' @ matchText m
                                      @ [CHR 0x0A]) ms)
                   @ [CHR 0x0A])
     \<and> filesScanned (g_status g') = filesScanned (g_status g) + 1
     \<and> totalHits (g_status g') = totalHits (g_status g) + length ms"
proof -
  define found where
    "found = line_found regex_search (if use_regex then regex_compile query else None) query"
  define hits where "hits = filter (\<lambda>(k, l). found l) (enumerate 1 (file_lines content))"
  define g1 where "g1 = g\<lparr>opened := opened g @ [filePath]\<rparr>"
  from read_loop_result [of found query content 1 "[]" "g_status g1"] obtain ms where
    loop: "read_loop found query content 1 [] (g_status g1)
        = Some (ms, (g_status g1)\<lparr>fileHits := fileHits (g_status g1) + length ms,
                                   totalHits := totalHits (g_status g1) + length ms\<rparr>)"
    and ms: "map (\<lambda>m. (lineNumber m, Some (matchText m))) ms
        = map (\<lambda>(k, l). (k, reported_snippet l query)) hits"
    unfolding hits_def by auto
  have "map lineNumber ms = map fst (map (\<lambda>m. (lineNumber m, Some (matchText m))) ms)"
    by (simp add: comp_def)
  also have "\<dots> = map fst hits"
    unfolding ms by (simp add: comp_def case_prod_unfold)
  finally have nums: "map lineNumber ms = map fst hits" .
  have len: "length ms = length (filter found (file_lines content))"
  proof -
    have "length ms = length hits" using arg_cong [OF ms, of length] by simp
    also have "\<dots> = length (map snd hits)" by simp
    also have "\<dots> = length (filter found (file_lines content))"
      unfolding hits_def enumerate_hits_lines ..
    finally show ?thesis .
  qed
  have sorted: "sorted_wrt (<) (map lineNumber ms)"
    unfolding nums hits_def by (rule enumerate_hits_sorted)
  define g' where "g' =
    (let g2 = g1\<lparr>g_filesProcessed := g_filesProcessed g1 + 1,
                  g_status := ((g_status g1)\<lparr>fileHits := fileHits (g_status g1) + length ms,
                                   totalHits := totalHits (g_status g1) + length ms\<rparr>)
                       \<lparr>filesScanned := filesScanned (g_status g1) + 1\<rparr>\<rparr>
     in if ms \<noteq> [] then g2\<lparr>g_resultsFile := g_resultsFile g2 @ write_block filePath ms\<rparr> else g2)"
  have compiled: "(use_regex \<and> regex_compile query = None) = False" using assms(2) by simp
  have run: "searchInFile regex_compile regex_search fs filePath query use_regex g = Some g'"
    unfolding searchInFile_def assms(1) option.case Let_def g1_def [symmetric]
      found_def [symmetric] loop g'_def compiled if_False
    by simp
  have sink: "g_resultsFile g'
         = g_resultsFile g
           @ (if ms = [] then []
              else ''Matches in file: '' @ filePath @ '' ('' @ to_dec (length ms) @ '' hits)''
                   @ [CHR 0x0A]
                   @ concat (map (\<lambda>m. ''    Line '' @ to_dec (lineNumber m) @ '': '' @ matchText m
                                      @ [CHR 0x0A]) ms)
                   @ [CHR 0x0A])"
    by (simp add: g'_def g1_def Let_def write_block_concat)
  have counters: "filesScanned (g_status g') = filesScanned (g_status g) + 1"
    "totalHits (g_status g') = totalHits (g_status g) + length ms"
    by (simp_all add: g'_def g1_def Let_def)
  note facts = run ms [unfolded hits_def found_def] len [unfolded found_def] sorted sink counters
  show ?thesis
    by (rule exI [of _ ms], rule exI [of _ g']) (intro conjI facts)
qed

theorem result_block_witness:
  "(\<lambda>p. if p = ''t/file1.txt''
         then Some (''This is a test.'' @ [CHR 0x0A] @ ''We have a needle here.'' @ [CHR 0x0A]
                    @ ''End of file.'' @ [CHR 0x0A])
         else None) ''t/file1.txt''
     = Some (''This is a test.'' @ [CHR 0x0A] @ ''We have a needle here.'' @ [CHR 0x0A]
             @ ''End of file.'' @ [CHR 0x0A])
   \<and> (\<lambda>q. if q = ''ne+dle'' then Some () else None) ''ne+dle'' \<noteq> None
   \<and> map_option g_resultsFile
       (searchInFile (\<lambda>q. if q = ''ne+dle'' then Some () else None)
          (\<lambda>r l. str_find l ''needle'' \<noteq> None)
          (\<lambda>p. if p = ''t/file1.txt''
               then Some (''This is a test.'' @ [CHR 0x0A] @ ''We have a needle here.'' @ [CHR 0x0A]
                          @ ''End of file.'' @ [CHR 0x0A])
               else None)
          ''t/file1.txt'' ''ne+dle'' True globals_init)
     = Some (''Matches in file: t/file1.txt (1 hits)'' @ [CHR 0x0A]
             @ ''    Line 2: We have a needle here.'' @ [CHR 0x0A] @ [CHR 0x0A])
   \<and> map_option g_resultsFile
       (searchInFile (\<lambda>q. if q = ''ne+dle'' then Some () else None)
          (\<lambda>r l. str_find l ''needle'' \<noteq> None)
          (\<lambda>p. if p = ''t/file1.txt''
               then Some (''This is a test.'' @ [CHR 0x0A] @ ''We have a needle here.'' @ [CHR 0x0A]
                          @ ''End of file.'' @ [CHR 0x0A])
               else None)
          ''t/file1.txt'' ''needle'' False globals_init)
     = Some (''Matches in file: t/file1.txt (1 hits)'' @ [CHR 0x0A]
             @ ''    Line 2: We have a '' @ [CHR 0x5C] @ ''x1b[31mneedle'' @ [CHR 0x5C] @ ''x1b[0m here.''
             @ [CHR 0x0A] @ [CHR 0x0A])"
proof -
  let ?content = "''This is a test.'' @ [CHR 0x0A] @ ''We have a needle here.'' @ [CHR 0x0A]
                    @ ''End of file.'' @ [CHR 0x0A]"
  let ?fs = "\<lambda>p. if p = ''t/file1.txt'' then Some ?content else None"
  let ?rc = "\<lambda>q :: string. if q = ''ne+dle'' then Some () else None"
  let ?rs = "\<lambda>(r :: unit) (l :: string). str_find l ''needle'' \<noteq> None"
  have d: "to_dec 1 = ''1''" "to_dec 2 = ''2''" by code_simp+
  have h1: "?fs ''t/file1.txt'' = Some ?content" by simp
  have c: "?rc ''ne+dle'' \<noteq> None" by simp
  have h2: "True \<longrightarrow> ?rc ''ne+dle'' \<noteq> None" by simp
  have h2': "False \<longrightarrow> ?rc ''needle'' \<noteq> None" by simp
  have hits: "map (\<lambda>(k, l). (k, reported_snippet l ''ne+dle''))
             (filter (\<lambda>(k, l). line_found ?rs (if True then ?rc ''ne+dle'' else None) ''ne+dle'' l)
                (enumerate 1 (file_lines ?content)))
      = [(2, Some ''We have a needle here.'')]"
    by code_simp
  have hits': "map (\<lambda>(k, l). (k, reported_snippet l ''needle''))
             (filter (\<lambda>(k, l). line_found ?rs (if False then ?rc ''needle'' else None) ''needle'' l)
                (enumerate 1 (file_lines ?content)))
      = [(2, Some (''We have a '' @ [CHR 0x5C] @ ''x1b[31mneedle'' @ [CHR 0x5C] @ ''x1b[0m here.''))]"
    by code_simp
  have regex_mode: "map_option g_resultsFile
       (searchInFile ?rc ?rs ?fs ''t/file1.txt'' ''ne+dle'' True globals_init)
     = Some (''Matches in file: t/file1.txt (1 hits)'' @ [CHR 0x0A]
             @ ''    Line 2: We have a needle here.'' @ [CHR 0x0A] @ [CHR 0x0A])"
  proof -
    from result_block [of ?fs "''t/file1.txt''" ?content True ?rc "''ne+dle''" ?rs globals_init,
        OF h1 h2]
    obtain ms :: "MatchInfo list" and g' where
      run: "searchInFile ?rc ?rs ?fs ''t/file1.txt'' ''ne+dle'' True globals_init = Some g'"
      and ms: "map (\<lambda>m. (lineNumber m, Some (matchText m))) ms
         = map (\<lambda>(k, l). (k, reported_snippet l ''ne+dle''))
             (filter (\<lambda>(k, l). line_found ?rs (if True then ?rc ''ne+dle'' else None) ''ne+dle'' l)
                (enumerate 1 (file_lines ?content)))"
      and sink: "g_resultsFile g'
         = g_resultsFile globals_init
           @ (if ms = [] then []
              else ''Matches in file: '' @ ''t/file1.txt'' @ '' ('' @ to_dec (length ms) @ '' hits)''
                   @ [CHR 0x0A]
                   @ concat (map (\<lambda>m. ''    Line '' @ to_dec (lineNumber m) @ '': '' @ matchText m
                                      @ [CHR 0x0A]) ms)
                   @ [CHR 0x0A])"
      by blast
    from ms [unfolded hits] obtain m where
      m: "ms = [m]" "lineNumber m = 2" "matchText m = ''We have a needle here.''"
      by auto
    have "g_resultsFile g'
       = ''Matches in file: t/file1.txt (1 hits)'' @ [CHR 0x0A]
             @ ''    Line 2: We have a needle here.'' @ [CHR 0x0A] @ [CHR 0x0A]"
      unfolding sink m by (simp add: m d One_nat_def [symmetric] globals_init_def del: One_nat_def)
    with run show ?thesis by simp
  qed
  have substring_mode: "map_option g_resultsFile
       (searchInFile ?rc ?rs ?fs ''t/file1.txt'' ''needle'' False globals_init)
     = Some (''Matches in file: t/file1.txt (1 hits)'' @ [CHR 0x0A]
             @ ''    Line 2: We have a '' @ [CHR 0x5C] @ ''x1b[31mneedle'' @ [CHR 0x5C] @ ''x1b[0m here.''
             @ [CHR 0x0A] @ [CHR 0x0A])"
  proof -
    from result_block [of ?fs "''t/file1.txt''" ?content False ?rc "''needle''" ?rs globals_init,
        OF h1 h2']
    obtain ms :: "MatchInfo list" and g' where
      run: "searchInFile ?rc ?rs ?fs ''t/file1.txt'' ''needle'' False globals_init = Some g'"
      and ms: "map (\<lambda>m. (lineNumber m, Some (matchText m))) ms
         = map (\<lambda>(k, l). (k, reported_snippet l ''needle''))
             (filter (\<lambda>(k, l). line_found ?rs (if False then ?rc ''needle'' else None) ''needle'' l)
                (enumerate 1 (file_lines ?content)))"
      and sink: "g_resultsFile g'
         = g_resultsFile globals_init
           @ (if ms = [] then []
              else ''Matches in file: '' @ ''t/file1.txt'' @ '' ('' @ to_dec (length ms) @ '' hits)''
                   @ [CHR 0x0A]
                   @ concat (map (\<lambda>m. ''    Line '' @ to_dec (lineNumber m) @ '': '' @ matchText m
                                      @ [CHR 0x0A]) ms)
                   @ [CHR 0x0A])"
      by blast
    from ms [unfolded hits'] obtain m where
      m: "ms = [m]" "lineNumber m = 2"
         "matchText m = ''We have a '' @ [CHR 0x5C] @ ''x1b[31mneedle'' @ [CHR 0x5C] @ ''x1b[0m here.''"
      by auto
    have "g_resultsFile g'
       = ''Matches in file: t/file1.txt (1 hits)'' @ [CHR 0x0A]
             @ ''    Line 2: We have a '' @ [CHR 0x5C] @ ''x1b[31mneedle'' @ [CHR 0x5C] @ ''x1b[0m here.''
             @ [CHR 0x0A] @ [CHR 0x0A]"
      unfolding sink m by (simp add: m d One_nat_def [symmetric] globals_init_def del: One_nat_def)
    with run show ?thesis by simp
  qed
  from h1 c regex_mode substring_mode show ?thesis by blast
qed

end
